theory Spec2Isabelle
  imports Main "HOL-Library.Word"
begin

unbundle bit_operations_syntax

section \<open>Bytes and buffers\<close>

text \<open>
  A C \<^verbatim>\<open>byte\<close> (\<^verbatim>\<open>unsigned char\<close>) is an 8-bit word. A C array is a list: the
  memory a pointer may legally reach from the start of the array. An access outside the
  list is undefined behaviour in C; the model returns \<open>None\<close> there instead of a buffer.
\<close>

type_synonym byte = "8 word"

definition store :: "'a list \<Rightarrow> nat \<Rightarrow> 'a \<Rightarrow> 'a list option" where
  "store buf i v = (if i < length buf then Some (buf[i := v]) else None)"

text \<open>
  \<^verbatim>\<open>memcpy(dst, src, n)\<close> for two arrays that do not overlap: the first \<open>n\<close> elements of
  \<open>dst\<close> are replaced by the first \<open>n\<close> elements of \<open>src\<close>; both arrays must hold \<open>n\<close>
  elements.
\<close>

definition memcpy :: "'a list \<Rightarrow> 'a list \<Rightarrow> nat \<Rightarrow> 'a list option" where
  "memcpy dst src n =
     (if n \<le> length src \<and> n \<le> length dst then Some (take n src @ drop n dst) else None)"

section \<open>Conversion between power-of-two bases (base/base64.cpp)\<close>

text \<open>
  \<^verbatim>\<open>unsigned long work\<close> is a 64-bit word, \<^verbatim>\<open>int workBits\<close> an integer. The widths
  \<^verbatim>\<open>src2Pow\<close> and \<^verbatim>\<open>dst2Pow\<close> are numbers of bits, so natural numbers: a negative
  width makes the shifts undefined in C. \<^verbatim>\<open>const int mask = (1 << dst2Pow) - 1\<close> is
  \<open>mask dst2Pow\<close> read as an \<^verbatim>\<open>unsigned long\<close> (for the widths below 31, where the C
  expression is defined); the assignment \<^verbatim>\<open>*dst++ = work & mask\<close> narrows it to a byte
  (\<open>ucast\<close>). With widths up to 8 the work buffer never holds more than 15 bits.
\<close>

subsection \<open>changeBase2\<close>

text \<open>
  The inner loop \<^verbatim>\<open>while(workBits >= dst2Pow)\<close>. It writes through \<^verbatim>\<open>dst\<close> without
  looking at \<^verbatim>\<open>dstLen\<close>; \<open>n\<close> is \<^verbatim>\<open>dst - origDst\<close>. Every turn writes one byte, so the
  loop ends: at the latest by leaving the array.
\<close>

lemma store_SomeD: "store buf i v = Some buf' \<Longrightarrow> i < length buf \<and> length buf' = length buf"
  by (auto simp: store_def split: if_splits)

function changeBase2_drain ::
  "nat \<Rightarrow> 64 word \<Rightarrow> int \<Rightarrow> byte list \<Rightarrow> nat \<Rightarrow> (64 word \<times> int \<times> byte list \<times> nat) option" where
  "changeBase2_drain dst2Pow work workBits dst n =
     (if workBits \<ge> int dst2Pow then
        (case store dst n (ucast (work AND mask dst2Pow)) of
           None \<Rightarrow> None
         | Some dst' \<Rightarrow>
             changeBase2_drain dst2Pow (drop_bit dst2Pow work) (workBits - int dst2Pow) dst' (Suc n))
      else Some (work, workBits, dst, n))"
  by pat_completeness auto
termination
  by (relation "measure (\<lambda>(dst2Pow, work, workBits, dst, n). length dst - n)")
     (auto dest: store_SomeD)

declare changeBase2_drain.simps [simp del]

text \<open>The outer loop \<^verbatim>\<open>while(src != end)\<close>, one source byte a turn.\<close>

fun changeBase2_loop ::
  "byte list \<Rightarrow> nat \<Rightarrow> nat \<Rightarrow> 64 word \<Rightarrow> int \<Rightarrow> byte list \<Rightarrow> nat \<Rightarrow>
     (64 word \<times> int \<times> byte list \<times> nat) option" where
  "changeBase2_loop [] src2Pow dst2Pow work workBits dst n = Some (work, workBits, dst, n)"
| "changeBase2_loop (x # src) src2Pow dst2Pow work workBits dst n =
     (case changeBase2_drain dst2Pow (work OR push_bit (nat workBits) (ucast x))
             (workBits + int src2Pow) dst n of
        None \<Rightarrow> None
      | Some (work', workBits', dst', n') \<Rightarrow>
          changeBase2_loop src src2Pow dst2Pow work' workBits' dst' n')"

text \<open>
  \<open>changeBase2 src src2Pow dst dstLen dst2Pow\<close>: \<open>src\<close> is the \<^verbatim>\<open>srcLen\<close> source bytes,
  \<open>dst\<close> the destination array. The result is the destination array afterwards and the
  number of bytes written to it (\<^verbatim>\<open>dst - origDst\<close> at the end).
\<close>

definition changeBase2 ::
  "byte list \<Rightarrow> nat \<Rightarrow> byte list \<Rightarrow> nat \<Rightarrow> nat \<Rightarrow> (byte list \<times> nat) option" where
  "changeBase2 src src2Pow dst dstLen dst2Pow =
     (case changeBase2_loop src src2Pow dst2Pow 0 0 dst 0 of
        None \<Rightarrow> None
      | Some (work, workBits, dst', n) \<Rightarrow>
          if workBits \<noteq> 0 \<and> n < dstLen then
            (case store dst' n (ucast (work AND mask dst2Pow)) of
               None \<Rightarrow> None
             | Some dst'' \<Rightarrow> Some (dst'', Suc n))
          else Some (dst', n))"

subsection \<open>changeBase2Inline\<close>

text \<open>
  The array \<open>buf\<close> is both source and destination; \<open>src\<close> and \<open>outLoc\<close> are offsets into
  it, and \<open>outLoc = None\<close> is the null pointer. First the loop
  \<^verbatim>\<open>while(srcLen && workBits < dst2Pow)\<close>, which only reads.
\<close>

fun changeBase2Inline_fill ::
  "byte list \<Rightarrow> nat \<Rightarrow> nat \<Rightarrow> nat \<Rightarrow> nat \<Rightarrow> 64 word \<Rightarrow> int \<Rightarrow>
     (nat \<times> nat \<times> 64 word \<times> int) option" where
  "changeBase2Inline_fill buf src 0 src2Pow dst2Pow work workBits = Some (src, 0, work, workBits)"
| "changeBase2Inline_fill buf src (Suc srcLen) src2Pow dst2Pow work workBits =
     (if workBits < int dst2Pow then
        (if src < length buf then
           changeBase2Inline_fill buf (Suc src) srcLen src2Pow dst2Pow
             (work OR push_bit (nat workBits) (ucast (buf ! src))) (workBits + int src2Pow)
         else None)
      else Some (src, Suc srcLen, work, workBits))"

text \<open>The loop \<^verbatim>\<open>while(workBits > 0)\<close> of the last call, which only writes.\<close>

function changeBase2Inline_rest ::
  "nat \<Rightarrow> 64 word \<Rightarrow> int \<Rightarrow> byte list \<Rightarrow> nat \<Rightarrow> byte list option" where
  "changeBase2Inline_rest dst2Pow work workBits buf outLoc =
     (if workBits > 0 then
        (case store buf outLoc (ucast (work AND mask dst2Pow)) of
           None \<Rightarrow> None
         | Some buf' \<Rightarrow>
             changeBase2Inline_rest dst2Pow (drop_bit dst2Pow work) (workBits - int dst2Pow)
               buf' (Suc outLoc))
      else Some buf)"
  by pat_completeness auto
termination
  by (relation "measure (\<lambda>(dst2Pow, work, workBits, buf, outLoc). length buf - outLoc)")
     (auto dest: store_SomeD)

declare changeBase2Inline_rest.simps [simp del]

text \<open>
  The static helper. It calls itself before it writes its own value, and with
  \<open>dst2Pow = 0\<close> and input left it calls itself for ever: it is a partial function, and
  \<open>None\<close> stands for a call that does not return as well as for an access outside the
  array.
\<close>

partial_function (option) changeBase2Inline_rec ::
  "byte list \<Rightarrow> nat \<Rightarrow> nat \<Rightarrow> nat \<Rightarrow> nat \<Rightarrow> bool \<Rightarrow> 64 word \<Rightarrow> int \<Rightarrow> nat option \<Rightarrow>
     byte list option" where
  "changeBase2Inline_rec buf src srcLen src2Pow dst2Pow outputPartialLastByte work workBits outLoc =
     (let outLoc' = (case outLoc of None \<Rightarrow> src | Some p \<Rightarrow> p) in
      case changeBase2Inline_fill buf src srcLen src2Pow dst2Pow work workBits of
        None \<Rightarrow> None
      | Some (src', srcLen', work', workBits') \<Rightarrow>
          let outVal = ucast (work' AND mask dst2Pow) :: byte;
              work'' = drop_bit dst2Pow work';
              workBits'' = workBits' - int dst2Pow
          in if srcLen' \<noteq> 0 then
               Option.bind
                 (changeBase2Inline_rec buf src' srcLen' src2Pow dst2Pow outputPartialLastByte
                    work'' workBits'' (Some (Suc outLoc')))
                 (\<lambda>buf'. store buf' outLoc' outVal)
             else
               (case store buf outLoc' outVal of
                  None \<Rightarrow> None
                | Some buf' \<Rightarrow>
                    if outputPartialLastByte
                    then changeBase2Inline_rest dst2Pow work'' workBits'' buf' (Suc outLoc')
                    else Some buf'))"

declare changeBase2Inline_rec.simps [code]

text \<open>The public function: the source is the first \<open>srcLen\<close> bytes of \<open>buf\<close>.\<close>

definition changeBase2Inline :: "byte list \<Rightarrow> nat \<Rightarrow> nat \<Rightarrow> nat \<Rightarrow> bool \<Rightarrow> byte list option" where
  "changeBase2Inline buf srcLen src2Pow dst2Pow outputPartialLastByte =
     changeBase2Inline_rec buf 0 srcLen src2Pow dst2Pow outputPartialLastByte 0 0 None"

subsection \<open>The alphabets\<close>

text \<open>
  A C character constant such as \<^verbatim>\<open>'A'\<close> is its ASCII code; \<open>ascii c\<close> is that code
  as a byte.
\<close>

definition ascii :: "char \<Rightarrow> byte" where
  "ascii c = of_nat (of_char c)"

text \<open>
  \<^verbatim>\<open>B64ToAscii\<close>, \<^verbatim>\<open>AsciiToB64\<close>, \<^verbatim>\<open>B32ToAscii\<close> and \<^verbatim>\<open>AsciiToB32\<close> are
  the same loop around four different bodies: for every offset below \<^verbatim>\<open>length\<close>, in
  order, the byte at the offset is replaced by a function of itself. (The one-argument
  \<^verbatim>\<open>AsciiToB64(in, length)\<close> and \<^verbatim>\<open>AsciiToB32(in, length)\<close> call the three-argument
  versions with \<^verbatim>\<open>out = in\<close>, which read \<^verbatim>\<open>*in++\<close> and then write \<^verbatim>\<open>*out++\<close> at the
  same offset.) A length beyond the array is an access outside it.
\<close>

function for_each_byte :: "(byte \<Rightarrow> byte) \<Rightarrow> byte list \<Rightarrow> nat \<Rightarrow> nat \<Rightarrow> byte list option" where
  "for_each_byte f buf len offset =
     (if offset < len then
        (if offset < length buf
         then for_each_byte f (buf[offset := f (buf ! offset)]) len (Suc offset)
         else None)
      else Some buf)"
  by pat_completeness auto
termination
  by (relation "measure (\<lambda>(f, buf, len, offset). len - offset)") auto

declare for_each_byte.simps [simp del]

definition B642AsciiTable :: string where
  "B642AsciiTable = '',-0123456789''"

text \<open>The body of \<^verbatim>\<open>B64ToAscii\<close>: \<^verbatim>\<open>int ch = in[offset]; ...; in[offset] = ch\<close>.\<close>

definition B64ToAscii_ch :: "byte \<Rightarrow> byte" where
  "B64ToAscii_ch v =
     (let ch = uint v in
      word_of_int
        (if ch > 11 then
           (if ch > 37 then ch + (of_char CHR ''a'' - 38) else ch + (of_char CHR ''A'' - 12))
         else of_char (B642AsciiTable ! nat ch)))"

definition B64ToAscii :: "byte list \<Rightarrow> nat \<Rightarrow> byte list option" where
  "B64ToAscii inp len = for_each_byte B64ToAscii_ch inp len 0"

definition Ascii2B64Table :: string where
  "Ascii2B64Table = ''                                            01  23456789:;       ''"

text \<open>
  The body of \<^verbatim>\<open>AsciiToB64\<close>. Here \<^verbatim>\<open>ch\<close> is a \<^verbatim>\<open>byte\<close>, so the sums wrap around
  at 256.
\<close>

definition AsciiToB64_ch :: "byte \<Rightarrow> byte" where
  "AsciiToB64_ch ch =
     (if ch \<ge> ascii CHR ''A'' then
        (if ch \<ge> ascii CHR ''a'' then ch + (38 - ascii CHR ''a'') else ch + (12 - ascii CHR ''A''))
      else ascii (Ascii2B64Table ! unat ch) - ascii CHR ''0'')"

definition AsciiToB64 :: "byte list \<Rightarrow> nat \<Rightarrow> byte list option" where
  "AsciiToB64 inp len = for_each_byte AsciiToB64_ch inp len 0"

text \<open>The body of \<^verbatim>\<open>B32ToAscii\<close>.\<close>

definition B32ToAscii_ch :: "byte \<Rightarrow> byte" where
  "B32ToAscii_ch v =
     (let ch = uint v in
      word_of_int (if ch \<ge> 0 \<and> ch < 26 then ch + of_char CHR ''A'' else ch + (of_char CHR ''2'' - 26)))"

definition B32ToAscii :: "byte list \<Rightarrow> nat \<Rightarrow> byte list option" where
  "B32ToAscii buf len = for_each_byte B32ToAscii_ch buf len 0"

text \<open>
  The C library's \<^verbatim>\<open>toupper\<close> in the C locale: the 26 lower-case letters go to their
  upper-case forms, every other value stays.
\<close>

definition toupper :: "int \<Rightarrow> int" where
  "toupper c = (if of_char CHR ''a'' \<le> c \<and> c \<le> of_char CHR ''z''
                then c - (of_char CHR ''a'' - of_char CHR ''A'') else c)"

text \<open>The body of \<^verbatim>\<open>AsciiToB32\<close>: \<^verbatim>\<open>int lch = toupper(ch); ...; *out++ = (byte)lch\<close>.\<close>

definition AsciiToB32_ch :: "byte \<Rightarrow> byte" where
  "AsciiToB32_ch ch =
     (let lch = toupper (uint ch) in
      word_of_int (if lch \<ge> of_char CHR ''A'' then lch - of_char CHR ''A''
                   else lch + (26 - of_char CHR ''2'')))"

definition AsciiToB32 :: "byte list \<Rightarrow> nat \<Rightarrow> byte list option" where
  "AsciiToB32 inp len = for_each_byte AsciiToB32_ch inp len 0"

subsection \<open>B64StandardDecode\<close>

definition WHITESPACE :: byte where "WHITESPACE = 64"

definition EQUALS :: byte where "EQUALS = 65"

definition INVALID :: byte where "INVALID = 66"

text \<open>The table \<^verbatim>\<open>d\<close>, copied entry by entry in the source's rows of ten: 123 entries, for
  the bytes up to \<^verbatim>\<open>'z'\<close>.\<close>

definition d :: "byte list" where
  "d = [66, 66, 66, 66, 66, 66, 66, 66, 66, 64] @
       [66, 66, 66, 66, 66, 66, 66, 66, 66, 66] @
       [66, 66, 66, 66, 66, 66, 66, 66, 66, 66] @
       [66, 66, 66, 66, 66, 66, 66, 66, 66, 66] @
       [66, 66, 66, 62, 66, 66, 66, 63, 52, 53] @
       [54, 55, 56, 57, 58, 59, 60, 61, 66, 66] @
       [66, 65, 66, 66, 66, 0, 1, 2, 3, 4] @
       [5, 6, 7, 8, 9, 10, 11, 12, 13, 14] @
       [15, 16, 17, 18, 19, 20, 21, 22, 23, 24] @
       [25, 66, 66, 66, 66, 66, 66, 26, 27, 28] @
       [29, 30, 31, 32, 33, 34, 35, 36, 37, 38] @
       [39, 40, 41, 42, 43, 44, 45, 46, 47, 48] @
       [49, 50, 51]"

text \<open>
  The loop \<^verbatim>\<open>while (in < end)\<close>. \<^verbatim>\<open>size_t buf\<close> is a 64-bit word; \<open>out\<close> is the list of
  the bytes stored through \<^verbatim>\<open>*out++\<close> so far, in order. The first component of the
  result tells how the loop was left: \<open>False\<close> by one of the two \<^verbatim>\<open>return false\<close>, \<open>True\<close>
  by running out of input. The pad character sets \<^verbatim>\<open>in = end\<close>, so that the loop goes
  on with no input left.
\<close>

fun B64StandardDecode_loop :: "byte list \<Rightarrow> 64 word \<Rightarrow> byte list \<Rightarrow> bool \<times> 64 word \<times> byte list" where
  "B64StandardDecode_loop [] buf out = (True, buf, out)"
| "B64StandardDecode_loop (v # rest) buf out =
     (if v > ascii CHR ''z'' then (False, buf, out)
      else
        let c = d ! unat v in
        if c = WHITESPACE then B64StandardDecode_loop rest buf out
        else if c = INVALID then (False, buf, out)
        else if c = EQUALS then B64StandardDecode_loop [] buf out
        else
          let buf' = push_bit 6 buf OR ucast c in
          if buf' AND 0x1000000 \<noteq> 0 then
            B64StandardDecode_loop rest 1
              (out @ [ucast (drop_bit 16 buf'), ucast (drop_bit 8 buf'), ucast buf'])
          else B64StandardDecode_loop rest buf' out)"

definition B64StandardDecode :: "byte list \<Rightarrow> bool \<times> byte list" where
  "B64StandardDecode inp =
     (case B64StandardDecode_loop inp 1 [] of
        (False, buf, out) \<Rightarrow> (False, out)
      | (True, buf, out) \<Rightarrow>
          (True,
           if buf AND 0x40000 \<noteq> 0 then out @ [ucast (drop_bit 10 buf), ucast (drop_bit 2 buf)]
           else if buf AND 0x1000 \<noteq> 0 then out @ [ucast (drop_bit 4 buf)]
           else out))"

section \<open>The null name codec (fs/NullNameIO.cpp)\<close>

text \<open>
  \<^verbatim>\<open>encodeName\<close> and \<^verbatim>\<open>decodeName\<close> receive the name, its length, a pointer to the
  64-bit IV slot and the output array. The model passes the slot's value in and returns
  the function's return value, the slot's value afterwards and the output array.
\<close>

definition maxEncodedNameLen :: "int \<Rightarrow> int" where
  "maxEncodedNameLen plaintextNameLen = plaintextNameLen"

definition maxDecodedNameLen :: "int \<Rightarrow> int" where
  "maxDecodedNameLen encodedNameLen = encodedNameLen"

definition encodeName :: "string \<Rightarrow> nat \<Rightarrow> 64 word \<Rightarrow> string \<Rightarrow> (nat \<times> 64 word \<times> string) option" where
  "encodeName plaintextName len iv encodedName =
     (case memcpy encodedName plaintextName len of
        None \<Rightarrow> None
      | Some out \<Rightarrow> Some (len, iv, out))"

definition decodeName :: "string \<Rightarrow> nat \<Rightarrow> 64 word \<Rightarrow> string \<Rightarrow> (nat \<times> 64 word \<times> string) option" where
  "decodeName encodedName len iv plaintextName =
     (case memcpy plaintextName encodedName len of
        None \<Rightarrow> None
      | Some out \<Rightarrow> Some (len, iv, out))"

section \<open>Notions used to state and prove the properties\<close>

text \<open>\<open>overwrite dst n s\<close> is the array \<open>dst\<close> with the bytes \<open>s\<close> written from offset \<open>n\<close> on.\<close>

definition overwrite :: "'a list \<Rightarrow> nat \<Rightarrow> 'a list \<Rightarrow> 'a list" where
  "overwrite dst n s = take n dst @ s @ drop (n + length s) dst"

text \<open>
  The bytes that the inner loop of \<open>changeBase2\<close> produces from a state of the work
  buffer, with the state it leaves; then the same for the outer loop; then everything
  that is produced from a state and the source bytes still to be read when the
  destination has room for the last, partial symbol.
\<close>

function drained :: "nat \<Rightarrow> 64 word \<Rightarrow> int \<Rightarrow> byte list \<times> 64 word \<times> int" where
  "drained b w wb =
     (if 0 < b \<and> int b \<le> wb then
        (case drained b (drop_bit b w) (wb - int b) of
           (s, r) \<Rightarrow> (ucast (w AND mask b) # s, r))
      else ([], w, wb))"
  by pat_completeness auto
termination
  by (relation "measure (\<lambda>(b, w, wb). nat wb)") auto

declare drained.simps [simp del]

fun looped :: "nat \<Rightarrow> nat \<Rightarrow> 64 word \<Rightarrow> int \<Rightarrow> byte list \<Rightarrow> byte list \<times> 64 word \<times> int" where
  "looped a b w wb [] = ([], w, wb)"
| "looped a b w wb (x # src) =
     (case drained b (w OR push_bit (nat wb) (ucast x)) (wb + int a) of
        (s1, w1, wb1) \<Rightarrow>
          (case looped a b w1 wb1 src of (s2, r) \<Rightarrow> (s1 @ s2, r)))"

definition symbols :: "nat \<Rightarrow> nat \<Rightarrow> 64 word \<Rightarrow> int \<Rightarrow> byte list \<Rightarrow> byte list" where
  "symbols a b w wb src =
     (case drained b w wb of
        (s0, w0, wb0) \<Rightarrow>
          (case looped a b w0 wb0 src of
             (s1, w1, wb1) \<Rightarrow> s0 @ s1 @ (if wb1 \<noteq> 0 then [ucast (w1 AND mask b)] else [])))"

definition last_symbol :: "nat \<Rightarrow> 64 word \<Rightarrow> int \<Rightarrow> bool \<Rightarrow> byte list" where
  "last_symbol b w wb room = (if wb \<noteq> 0 \<and> room then [ucast (w AND mask b)] else [])"

text \<open>
  The bit stream of the specification: a sequence of \<open>a\<close>-bit symbols is the number whose
  digits in base \<open>2 ^ a\<close> they are, lowest digit first, and \<open>chunks b k N\<close> are the \<open>k\<close>
  lowest digits of \<open>N\<close> in base \<open>2 ^ b\<close>.
\<close>

fun le_value :: "nat \<Rightarrow> byte list \<Rightarrow> nat" where
  "le_value a [] = 0"
| "le_value a (x # xs) = unat x + 2 ^ a * le_value a xs"

fun chunks :: "nat \<Rightarrow> nat \<Rightarrow> nat \<Rightarrow> nat list" where
  "chunks b 0 N = []"
| "chunks b (Suc k) N = N mod 2 ^ b # chunks b k (N div 2 ^ b)"

text \<open>
  Where a call of the helper of \<open>changeBase2Inline\<close> writes (\<^verbatim>\<open>if(!outLoc) outLoc = src\<close>),
  and what the helper is to leave from that offset on: every symbol when
  \<open>outputPartialLastByte\<close> is set, else one symbol for each of its calls.
\<close>

definition out_offset :: "nat \<Rightarrow> nat option \<Rightarrow> nat" where
  "out_offset src outLoc = (case outLoc of None \<Rightarrow> src | Some p \<Rightarrow> p)"

definition inline_out :: "bool \<Rightarrow> nat \<Rightarrow> nat \<Rightarrow> 64 word \<Rightarrow> int \<Rightarrow> byte list \<Rightarrow> byte list" where
  "inline_out flag a b w wb src =
     (if flag then symbols a b w wb src
      else take ((nat wb + (length src - 1) * a) div b + 1) (symbols a b w wb src))"

text \<open>The alphabets as the specification spells them, and the standard base-64 alphabet.\<close>

definition b64_alphabet :: string where
  "b64_alphabet = '',-0123456789ABCDEFGHIJKLMNOPQRSTUVWXYZabcdefghijklmnopqrstuvwxyz''"

definition b32_alphabet :: string where
  "b32_alphabet = ''ABCDEFGHIJKLMNOPQRSTUVWXYZ234567''"

text \<open>The lower-case form of an upper-case letter; every other byte stays.\<close>

definition lowercase :: "byte \<Rightarrow> byte" where
  "lowercase c = (if ascii CHR ''A'' \<le> c \<and> c \<le> ascii CHR ''Z''
                  then c + (ascii CHR ''a'' - ascii CHR ''A'') else c)"

definition std_alphabet :: "byte \<Rightarrow> bool" where
  "std_alphabet v \<longleftrightarrow>
     (ascii CHR ''A'' \<le> v \<and> v \<le> ascii CHR ''Z'') \<or> (ascii CHR ''a'' \<le> v \<and> v \<le> ascii CHR ''z'') \<or>
     (ascii CHR ''0'' \<le> v \<and> v \<le> ascii CHR ''9'') \<or> v = ascii CHR ''+'' \<or> v = ascii CHR ''/''"

section \<open>Buffers and the loops of changeBase2\<close>

lemma length_overwrite: "n + length s \<le> length dst \<Longrightarrow> length (overwrite dst n s) = length dst"
  by (simp add: overwrite_def)

lemma overwrite_Nil: "overwrite dst n [] = dst"
  by (simp add: overwrite_def)

lemma store_overwrite:
  assumes "n + length s < length dst"
  shows "store (overwrite dst n s) (n + length s) v = Some (overwrite dst n (s @ [v]))"
proof -
  have d: "drop (n + length s) dst = dst ! (n + length s) # drop (Suc (n + length s)) dst"
    using assms by (simp add: Cons_nth_drop_Suc)
  have "(overwrite dst n s)[n + length s := v] = overwrite dst n (s @ [v])"
    using assms unfolding overwrite_def
    by (simp add: list_update_append d)
  then show ?thesis
    using assms by (simp add: store_def length_overwrite)
qed

lemma store_fresh:
  "n < length dst \<Longrightarrow> store dst n v = Some (overwrite dst n [v])"
  using store_overwrite [of n "[]" dst v] by (simp add: overwrite_Nil)

lemma overwrite_overwrite:
  assumes "n + length s1 + length s2 \<le> length dst"
  shows "overwrite (overwrite dst n s1) (n + length s1) s2 = overwrite dst n (s1 @ s2)"
  using assms unfolding overwrite_def by (simp add: ac_simps)

lemma drained_ok:
  "drained b w wb = (s, w', wb') \<Longrightarrow> 0 < b \<Longrightarrow> n + length s \<le> length dst \<Longrightarrow>
   changeBase2_drain b w wb dst n = Some (w', wb', overwrite dst n s, n + length s)"
proof (induction b w wb arbitrary: s dst n rule: drained.induct)
  case (1 b w wb)
  show ?case
  proof (cases "int b \<le> wb")
    case False
    have "drained b w wb = ([], w, wb)"
      using False by (simp add: drained.simps [of b w wb])
    moreover have "changeBase2_drain b w wb dst n = Some (w, wb, dst, n)"
      using False by (simp add: changeBase2_drain.simps [of b w wb])
    ultimately show ?thesis
      using "1.prems" by (simp add: overwrite_Nil)
  next
    case True
    obtain s' where s': "drained b (drop_bit b w) (wb - int b) = (s', w', wb')"
      and s: "s = ucast (w AND mask b) # s'"
      using "1.prems" True by (auto simp: drained.simps [of b w wb] split: prod.splits)
    let ?v = "ucast (w AND mask b) :: byte"
    have n: "n < length dst" using "1.prems" s by simp
    have st: "store dst n ?v = Some (overwrite dst n [?v])"
      using n by (rule store_fresh)
    have cap: "Suc n + length s' \<le> length (overwrite dst n [?v])"
      using "1.prems" s by (simp add: length_overwrite)
    have ih: "changeBase2_drain b (drop_bit b w) (wb - int b) (overwrite dst n [?v]) (Suc n) =
        Some (w', wb', overwrite (overwrite dst n [?v]) (Suc n) s', Suc n + length s')"
      using "1.IH" [OF _ s' \<open>0 < b\<close> cap] True \<open>0 < b\<close> by simp
    have ow: "overwrite (overwrite dst n [?v]) (Suc n) s' = overwrite dst n s"
      using overwrite_overwrite [of n "[?v]" s' dst] "1.prems" s by simp
    show ?thesis
      using True st ih ow s by (simp add: changeBase2_drain.simps [of b w wb])
  qed
qed

lemma looped_ok:
  "looped a b w wb src = (s, w', wb') \<Longrightarrow> 0 < b \<Longrightarrow> n + length s \<le> length dst \<Longrightarrow>
   changeBase2_loop src a b w wb dst n = Some (w', wb', overwrite dst n s, n + length s)"
proof (induction src arbitrary: w wb s dst n)
  case Nil
  then show ?case by (simp add: overwrite_Nil)
next
  case (Cons x src)
  obtain s1 w1 wb1 where d: "drained b (w OR push_bit (nat wb) (ucast x)) (wb + int a) = (s1, w1, wb1)"
    by (metis prod_cases3)
  obtain s2 where l: "looped a b w1 wb1 src = (s2, w', wb')" and s: "s = s1 @ s2"
    using Cons.prems(1) d by (auto split: prod.splits)
  have c1: "n + length s1 \<le> length dst"
    using Cons.prems(3) s by simp
  have dr: "changeBase2_drain b (w OR push_bit (nat wb) (ucast x)) (wb + int a) dst n =
      Some (w1, wb1, overwrite dst n s1, n + length s1)"
    using d \<open>0 < b\<close> c1 by (rule drained_ok)
  have c2: "(n + length s1) + length s2 \<le> length (overwrite dst n s1)"
    using Cons.prems(3) s by (simp add: length_overwrite)
  have lp: "changeBase2_loop src a b w1 wb1 (overwrite dst n s1) (n + length s1) =
      Some (w', wb', overwrite (overwrite dst n s1) (n + length s1) s2, n + length s1 + length s2)"
    using Cons.IH [OF l \<open>0 < b\<close> c2] .
  have ow: "overwrite (overwrite dst n s1) (n + length s1) s2 = overwrite dst n s"
    using overwrite_overwrite [of n s1 s2 dst] Cons.prems(3) s by simp
  show ?case
    using dr lp ow s by simp
qed

lemma changeBase2_ok:
  assumes l: "looped a b 0 0 src = (s, w', wb')" and b: "0 < b"
    and cap: "length (s @ last_symbol b w' wb' (length s < dstLen)) \<le> length dst"
  shows "changeBase2 src a dst dstLen b =
    Some (overwrite dst 0 (s @ last_symbol b w' wb' (length s < dstLen)),
          length (s @ last_symbol b w' wb' (length s < dstLen)))"
proof -
  have c: "0 + length s \<le> length dst"
    using cap by simp
  have lp: "changeBase2_loop src a b 0 0 dst 0 = Some (w', wb', overwrite dst 0 s, length s)"
    using looped_ok [OF l b c] by simp
  show ?thesis
  proof (cases "wb' \<noteq> 0 \<and> length s < dstLen")
    case False
    then show ?thesis
      using lp by (auto simp: changeBase2_def last_symbol_def)
  next
    case True
    have "0 + length s < length dst"
      using cap True by (simp add: last_symbol_def)
    from store_overwrite [OF this]
    show ?thesis
      using lp True by (simp add: changeBase2_def last_symbol_def)
  qed
qed

lemma drained_count:
  "drained b w wb = (s, w', wb') \<Longrightarrow> 0 < b \<Longrightarrow> 0 \<le> wb \<Longrightarrow>
   int (length s * b) + wb' = wb \<and> 0 \<le> wb' \<and> wb' < int b"
proof (induction b w wb arbitrary: s rule: drained.induct)
  case (1 b w wb)
  show ?case
  proof (cases "int b \<le> wb")
    case False
    then show ?thesis
      using "1.prems" by (simp add: drained.simps [of b w wb])
  next
    case True
    obtain s' where s': "drained b (drop_bit b w) (wb - int b) = (s', w', wb')"
      and s: "s = ucast (w AND mask b) # s'"
      using "1.prems" True by (auto simp: drained.simps [of b w wb] split: prod.splits)
    have "int (length s' * b) + wb' = wb - int b \<and> 0 \<le> wb' \<and> wb' < int b"
      using "1.IH" [OF _ s' \<open>0 < b\<close>] True \<open>0 < b\<close> by simp
    then show ?thesis
      using s by (simp add: algebra_simps)
  qed
qed

lemma looped_count:
  "looped a b w wb src = (s, w', wb') \<Longrightarrow> 0 < b \<Longrightarrow> 0 \<le> wb \<Longrightarrow> wb < int b \<Longrightarrow>
   int (length s * b) + wb' = wb + int (length src * a) \<and> 0 \<le> wb' \<and> wb' < int b"
proof (induction src arbitrary: w wb s)
  case Nil
  then show ?case by simp
next
  case (Cons x src)
  obtain s1 w1 wb1 where d: "drained b (w OR push_bit (nat wb) (ucast x)) (wb + int a) = (s1, w1, wb1)"
    by (metis prod_cases3)
  obtain s2 where l: "looped a b w1 wb1 src = (s2, w', wb')" and s: "s = s1 @ s2"
    using Cons.prems(1) d by (auto split: prod.splits)
  have c1: "int (length s1 * b) + wb1 = wb + int a \<and> 0 \<le> wb1 \<and> wb1 < int b"
    using drained_count [OF d \<open>0 < b\<close>] Cons.prems(3) by simp
  have c2: "int (length s2 * b) + wb' = wb1 + int (length src * a) \<and> 0 \<le> wb' \<and> wb' < int b"
    using Cons.IH [OF l \<open>0 < b\<close>] c1 by simp
  show ?case
    using c1 c2 s by (simp add: algebra_simps)
qed

lemma div_mod_unique_nat:
  fixes q r b n :: nat
  assumes "q * b + r = n" and "r < b"
  shows "q = n div b \<and> r = n mod b"
  using assms by auto

lemma unat_and_mask64: "unat ((w :: 64 word) AND mask b) = unat w mod 2 ^ b"
  by (simp add: take_bit_eq_mask [symmetric] unsigned_take_bit_eq take_bit_nat_def)

lemma or_push_bit_nat:
  fixes m y :: nat
  assumes "m < 2 ^ k"
  shows "m OR 2 ^ k * y = m + 2 ^ k * y"
proof -
  have m: "take_bit k m = m"
    using assms by (simp add: take_bit_nat_eq_self)
  have "\<not> bit m n \<or> \<not> bit (push_bit k y) n" for n
  proof (cases "n < k")
    case True
    then show ?thesis by (simp add: bit_push_bit_iff)
  next
    case False
    have "bit (take_bit k m) n = False"
      using False by (simp add: bit_take_bit_iff)
    then show ?thesis using m by simp
  qed
  then have "m + push_bit k y = m OR push_bit k y"
    by (rule disjunctive_add)
  then show ?thesis
    by (simp add: push_bit_eq_mult mult.commute)
qed

lemma unat_ucast_byte: "unat (ucast (x :: byte) :: 64 word) = unat x"
proof -
  have "unat x < 2 ^ 8"
    using unsigned_less [of x] by simp
  then have "unat x < 2 ^ 64"
    by simp
  then show ?thesis
    by (simp add: unsigned_ucast_eq take_bit_nat_eq_self)
qed

lemma unat_push_byte:
  fixes x :: byte
  assumes "k \<le> 8"
  shows "unat (push_bit k (ucast x :: 64 word)) = 2 ^ k * unat x"
proof -
  have x: "unat x < 2 ^ 8"
    using unsigned_less [of x] by simp
  have "2 ^ k * unat x < 2 ^ k * 2 ^ 8"
    using x by simp
  also have "\<dots> \<le> (2 ^ 8 * 2 ^ 8 :: nat)"
    using assms power_increasing [of k 8 "2::nat"] by simp
  finally have lt: "2 ^ k * unat x < (2 ^ 64 :: nat)"
    by simp
  have "unat (push_bit k (ucast x :: 64 word)) =
      take_bit LENGTH(64) (push_bit k (unat (ucast x :: 64 word)))"
    by (rule unsigned_push_bit_eq)
  also have "\<dots> = take_bit 64 (2 ^ k * unat x)"
    by (simp add: unat_ucast_byte push_bit_eq_mult mult.commute)
  also have "\<dots> = 2 ^ k * unat x"
    using lt by (simp add: take_bit_nat_eq_self)
  finally show ?thesis .
qed

lemma unat_or_push_byte:
  fixes w :: "64 word" and x :: byte
  assumes "unat w < 2 ^ k" and "k \<le> 8"
  shows "unat (w OR push_bit k (ucast x)) = unat w + 2 ^ k * unat x"
proof -
  have "unat (w OR push_bit k (ucast x)) = unat w OR unat (push_bit k (ucast x :: 64 word))"
    by (simp only: unsigned_or_eq)
  also have "\<dots> = unat w OR 2 ^ k * unat x"
    by (simp only: unat_push_byte [OF assms(2)])
  also have "\<dots> = unat w + 2 ^ k * unat x"
    using assms(1) by (rule or_push_bit_nat)
  finally show ?thesis .
qed

lemma symbol_of_nat:
  fixes w :: "64 word"
  shows "(ucast (w AND mask b) :: byte) = of_nat (unat w mod 2 ^ b)"
  by (metis of_nat_unat unat_and_mask64)

lemma unat_symbol:
  fixes w :: "64 word"
  shows "unat (ucast (w AND mask b) :: byte) < 2 ^ b"
proof -
  have "unat (ucast (w AND mask b) :: byte) \<le> unat (w AND mask b)"
    by (simp add: unsigned_ucast_eq take_bit_nat_def)
  also have "\<dots> < 2 ^ b"
    by (simp add: unat_and_mask64)
  finally show ?thesis .
qed

lemma symbols_drain:
  assumes "0 < b" and "int b \<le> wb"
  shows "symbols a b w wb src = ucast (w AND mask b) # symbols a b (drop_bit b w) (wb - int b) src"
  using assms by (simp add: symbols_def drained.simps [of b w wb] split: prod.splits)

lemma symbols_read:
  assumes "wb < int b"
  shows "symbols a b w wb (x # xs) = symbols a b (w OR push_bit (nat wb) (ucast x)) (wb + int a) xs"
  using assms by (simp add: symbols_def drained.simps [of b w wb] split: prod.splits)

lemma symbols_end:
  assumes "wb < int b"
  shows "symbols a b w wb [] = last_symbol b w wb True"
  using assms by (simp add: symbols_def drained.simps [of b w wb] last_symbol_def)

lemma low_bits_mod:
  fixes m V :: nat
  assumes "b \<le> k"
  shows "(m + 2 ^ k * V) mod 2 ^ b = m mod 2 ^ b"
proof -
  have "(2::nat) ^ k = 2 ^ b * 2 ^ (k - b)"
    using assms by (simp add: power_add [symmetric])
  then have e: "m + 2 ^ k * V = m + 2 ^ b * (2 ^ (k - b) * V)"
    by (simp only: mult.assoc)
  show ?thesis
    by (simp only: e mod_mult_self2)
qed

lemma low_bits_div:
  fixes m V :: nat
  assumes "b \<le> k"
  shows "(m + 2 ^ k * V) div 2 ^ b = m div 2 ^ b + 2 ^ (k - b) * V"
proof -
  have "(2::nat) ^ k = 2 ^ b * 2 ^ (k - b)"
    using assms by (simp add: power_add [symmetric])
  then have e: "m + 2 ^ k * V = m + 2 ^ b * (2 ^ (k - b) * V)"
    by (simp only: mult.assoc)
  have "(m + 2 ^ b * (2 ^ (k - b) * V)) div 2 ^ b = 2 ^ (k - b) * V + m div 2 ^ b"
    by (rule div_mult_self2) simp
  then show ?thesis
    by (simp only: e add.commute)
qed

lemma div_less_power:
  fixes m :: nat
  assumes "m < 2 ^ k" and "b \<le> k"
  shows "m div 2 ^ b < 2 ^ (k - b)"
proof -
  have e: "(2::nat) ^ k = 2 ^ (k - b) * 2 ^ b"
    using assms(2) by (simp add: power_add [symmetric])
  have "m < 2 ^ (k - b) * 2 ^ b"
    using assms(1) unfolding e .
  then show ?thesis
    by (rule less_mult_imp_div_less)
qed

lemma append_digit_less:
  fixes m x :: nat
  assumes "m < 2 ^ k" and "x < 2 ^ a"
  shows "m + 2 ^ k * x < 2 ^ (k + a)"
proof -
  have "x + 1 \<le> 2 ^ a"
    using assms(2) by simp
  then have "2 ^ k * (x + 1) \<le> (2::nat) ^ k * 2 ^ a"
    by (rule mult_le_mono2)
  then have "2 ^ k * x + 2 ^ k \<le> (2::nat) ^ (k + a)"
    by (simp only: power_add distrib_left mult_1_right)
  then show ?thesis
    using assms(1) by linarith
qed

lemma ceil_div_step:
  fixes b k L :: nat
  assumes "0 < b" and "b \<le> k"
  shows "(k + L + b - 1) div b = Suc ((k - b + L + b - 1) div b)"
proof -
  define X where "X = k - b + L + b - 1"
  have e: "k + L + b - 1 = X + b"
    using assms unfolding X_def by linarith
  have "(X + b) div b = Suc (X div b)"
    using assms(1) div_add_self2 [of b X] by linarith
  then show ?thesis
    unfolding e X_def .
qed

lemma ceil_div_small:
  fixes b k :: nat
  assumes "0 < k" and "k < b"
  shows "(k + b - 1) div b = 1"
proof -
  define X where "X = k - 1"
  have e: "k + b - 1 = X + b" and X: "X < b"
    using assms unfolding X_def by linarith+
  have "(X + b) div b = 1"
    using X div_add_self2 [of b X] by simp
  then show ?thesis
    unfolding e .
qed

lemma unat_drop_bit_div: "unat (drop_bit b (w :: 64 word)) = unat w div 2 ^ b"
proof -
  have "unat (drop_bit b w) = drop_bit b (unat w)"
    by (rule unat_drop_bit_eq)
  also have "\<dots> = unat w div 2 ^ b"
    by (rule drop_bit_eq_div)
  finally show ?thesis .
qed

lemma symbols_chunks_drain:
  assumes b: "0 < b" and wb: "int b \<le> wb"
    and rest: "symbols a b (drop_bit b w) (wb - int b) src =
      map of_nat (chunks b ((nat (wb - int b) + L + b - 1) div b)
        (unat (drop_bit b w) + 2 ^ nat (wb - int b) * V))"
  shows "symbols a b w wb src =
      map of_nat (chunks b ((nat wb + L + b - 1) div b) (unat w + 2 ^ nat wb * V))"
proof -
  have k: "b \<le> nat wb" and k': "nat (wb - int b) = nat wb - b"
    using wb by simp_all
  have cnt: "(nat wb + L + b - 1) div b = Suc ((nat wb - b + L + b - 1) div b)"
    using b k by (rule ceil_div_step)
  have hd: "(ucast (w AND mask b) :: byte) = of_nat ((unat w + 2 ^ nat wb * V) mod 2 ^ b)"
    by (simp only: symbol_of_nat low_bits_mod [OF k])
  have tl: "unat (drop_bit b w) + 2 ^ (nat wb - b) * V = (unat w + 2 ^ nat wb * V) div 2 ^ b"
    by (simp only: low_bits_div [OF k] unat_drop_bit_div)
  have "symbols a b w wb src = ucast (w AND mask b) # symbols a b (drop_bit b w) (wb - int b) src"
    using b wb by (rule symbols_drain)
  also have "\<dots> = of_nat ((unat w + 2 ^ nat wb * V) mod 2 ^ b) #
      map of_nat (chunks b ((nat wb - b + L + b - 1) div b) ((unat w + 2 ^ nat wb * V) div 2 ^ b))"
    by (simp only: rest hd k' tl)
  also have "\<dots> = map of_nat (chunks b ((nat wb + L + b - 1) div b) (unat w + 2 ^ nat wb * V))"
    by (simp only: cnt chunks.simps list.map)
  finally show ?thesis .
qed

lemma symbols_chunks:
  assumes b: "0 < b" "b \<le> 8"
  shows "\<forall>x\<in>set src. unat x < 2 ^ a \<Longrightarrow> 0 \<le> wb \<Longrightarrow> unat w < 2 ^ nat wb \<Longrightarrow>
    symbols a b w wb src =
      map of_nat (chunks b ((nat wb + a * length src + b - 1) div b)
        (unat w + 2 ^ nat wb * le_value a src))"
proof (induction src arbitrary: w wb)
  case Nil
  then show ?case
  proof (induction k \<equiv> "nat wb" arbitrary: w wb rule: less_induct)
    case less
    show ?case
    proof (cases "int b \<le> wb")
      case True
      have lt: "nat (wb - int b) < nat wb"
        using True b(1) by simp
      have bound: "unat (drop_bit b w) < 2 ^ nat (wb - int b)"
        using div_less_power [of "unat w" "nat wb" b] less.prems True
        by (simp add: unat_drop_bit_div nat_diff_distrib)
      have "symbols a b (drop_bit b w) (wb - int b) [] =
          map of_nat (chunks b ((nat (wb - int b) + a * length ([]::byte list) + b - 1) div b)
            (unat (drop_bit b w) + 2 ^ nat (wb - int b) * le_value a []))"
        using less.hyps [OF lt _ _ bound] True by simp
      with b(1) True show ?thesis
        by (rule symbols_chunks_drain)
    next
      case False
      then have e: "symbols a b w wb [] = last_symbol b w wb True"
        by (simp add: symbols_end)
      show ?thesis
      proof (cases "wb = 0")
        case True
        then show ?thesis
          using e b(1) by (simp add: last_symbol_def)
      next
        case False
        have "(nat wb + b - 1) div b = 1"
          using False \<open>\<not> int b \<le> wb\<close> less.prems ceil_div_small [of "nat wb" b] by simp
        then show ?thesis
          using e False by (simp add: last_symbol_def symbol_of_nat)
      qed
    qed
  qed
next
  case (Cons x xs)
  from Cons.prems show ?case
  proof (induction k \<equiv> "nat wb" arbitrary: w wb rule: less_induct)
    case less
    show ?case
    proof (cases "int b \<le> wb")
      case True
      have lt: "nat (wb - int b) < nat wb"
        using True b(1) by simp
      have bound: "unat (drop_bit b w) < 2 ^ nat (wb - int b)"
        using div_less_power [of "unat w" "nat wb" b] less.prems True
        by (simp add: unat_drop_bit_div nat_diff_distrib)
      have "symbols a b (drop_bit b w) (wb - int b) (x # xs) =
          map of_nat (chunks b ((nat (wb - int b) + a * length (x # xs) + b - 1) div b)
            (unat (drop_bit b w) + 2 ^ nat (wb - int b) * le_value a (x # xs)))"
        using less.hyps [OF lt _ _ bound] less.prems True by simp
      with b(1) True show ?thesis
        by (rule symbols_chunks_drain)
    next
      case False
      let ?k = "nat wb"
      let ?w = "w OR push_bit ?k (ucast x)"
      have k8: "?k \<le> 8"
        using False b(2) by simp
      have x: "unat x < 2 ^ a" and xs: "\<forall>y\<in>set xs. unat y < 2 ^ a"
        using less.prems(1) by simp_all
      have u: "unat ?w = unat w + 2 ^ ?k * unat x"
        using less.prems(3) k8 by (rule unat_or_push_byte)
      have bound: "unat ?w < 2 ^ nat (wb + int a)"
        using append_digit_less [OF less.prems(3) x] less.prems(2) u by (simp add: nat_add_distrib)
      have "symbols a b w wb (x # xs) = symbols a b ?w (wb + int a) xs"
        using False by (simp add: symbols_read)
      also have "\<dots> = map of_nat (chunks b ((nat (wb + int a) + a * length xs + b - 1) div b)
            (unat ?w + 2 ^ nat (wb + int a) * le_value a xs))"
        using Cons.IH [OF xs _ bound] less.prems(2) by simp
      also have "\<dots> = map of_nat (chunks b ((nat wb + a * length (x # xs) + b - 1) div b)
            (unat w + 2 ^ nat wb * le_value a (x # xs)))"
        using less.prems(2) by (simp add: u nat_add_distrib power_add algebra_simps)
      finally show ?thesis .
    qed
  qed
qed

lemma rec_drain:
  assumes "int b \<le> wb" and "0 < k"
  shows "changeBase2Inline_rec buf p k a b flag w wb outLoc =
    Option.bind
      (changeBase2Inline_rec buf p k a b flag (drop_bit b w) (wb - int b)
         (Some (Suc (out_offset p outLoc))))
      (\<lambda>buf'. store buf' (out_offset p outLoc) (ucast (w AND mask b)))"
proof -
  obtain k' where k: "k = Suc k'"
    using assms(2) by (cases k) auto
  have f: "changeBase2Inline_fill buf p k a b w wb = Some (p, k, w, wb)"
    using assms(1) unfolding k by simp
  have "changeBase2Inline_rec buf p k a b flag w wb outLoc =
     (let outLoc' = (case outLoc of None \<Rightarrow> p | Some q \<Rightarrow> q) in
      case changeBase2Inline_fill buf p k a b w wb of
        None \<Rightarrow> None
      | Some (src', srcLen', work', workBits') \<Rightarrow>
          let outVal = ucast (work' AND mask b) :: byte;
              work'' = drop_bit b work';
              workBits'' = workBits' - int b
          in if srcLen' \<noteq> 0 then
               Option.bind
                 (changeBase2Inline_rec buf src' srcLen' a b flag
                    work'' workBits'' (Some (Suc outLoc')))
                 (\<lambda>buf'. store buf' outLoc' outVal)
             else
               (case store buf outLoc' outVal of
                  None \<Rightarrow> None
                | Some buf' \<Rightarrow>
                    if flag
                    then changeBase2Inline_rest b work'' workBits'' buf' (Suc outLoc')
                    else Some buf'))"
    by (rule changeBase2Inline_rec.simps)
  also have "\<dots> = Option.bind
      (changeBase2Inline_rec buf p k a b flag (drop_bit b w) (wb - int b)
         (Some (Suc (out_offset p outLoc))))
      (\<lambda>buf'. store buf' (out_offset p outLoc) (ucast (w AND mask b)))"
    unfolding f using assms(2) by (simp add: out_offset_def Let_def)
  finally show ?thesis .
qed

lemma rec_fill_cong:
  assumes "changeBase2Inline_fill buf p k a b w wb = changeBase2Inline_fill buf p' k' a b w' wb'"
    and "out_offset p outLoc = out_offset p' outLoc'"
  shows "changeBase2Inline_rec buf p k a b flag w wb outLoc =
         changeBase2Inline_rec buf p' k' a b flag w' wb' outLoc'"
proof -
  have "changeBase2Inline_rec buf p k a b flag w wb outLoc =
     (let outLoc' = out_offset p outLoc in
      case changeBase2Inline_fill buf p k a b w wb of
        None \<Rightarrow> None
      | Some (src', srcLen', work', workBits') \<Rightarrow>
          let outVal = ucast (work' AND mask b) :: byte;
              work'' = drop_bit b work';
              workBits'' = workBits' - int b
          in if srcLen' \<noteq> 0 then
               Option.bind
                 (changeBase2Inline_rec buf src' srcLen' a b flag
                    work'' workBits'' (Some (Suc outLoc')))
                 (\<lambda>buf'. store buf' outLoc' outVal)
             else
               (case store buf outLoc' outVal of
                  None \<Rightarrow> None
                | Some buf' \<Rightarrow>
                    if flag
                    then changeBase2Inline_rest b work'' workBits'' buf' (Suc outLoc')
                    else Some buf'))"
    unfolding out_offset_def by (rule changeBase2Inline_rec.simps)
  also have "\<dots> = 
     (let outLoc'' = out_offset p' outLoc' in
      case changeBase2Inline_fill buf p' k' a b w' wb' of
        None \<Rightarrow> None
      | Some (src', srcLen', work', workBits') \<Rightarrow>
          let outVal = ucast (work' AND mask b) :: byte;
              work'' = drop_bit b work';
              workBits'' = workBits' - int b
          in if srcLen' \<noteq> 0 then
               Option.bind
                 (changeBase2Inline_rec buf src' srcLen' a b flag
                    work'' workBits'' (Some (Suc outLoc'')))
                 (\<lambda>buf'. store buf' outLoc'' outVal)
             else
               (case store buf outLoc'' outVal of
                  None \<Rightarrow> None
                | Some buf' \<Rightarrow>
                    if flag
                    then changeBase2Inline_rest b work'' workBits'' buf' (Suc outLoc'')
                    else Some buf'))"
    by (simp only: assms)
  also have "\<dots> = changeBase2Inline_rec buf p' k' a b flag w' wb' outLoc'"
    unfolding out_offset_def by (rule changeBase2Inline_rec.simps [symmetric])
  finally show ?thesis .
qed

lemma rec_read:
  assumes "wb < int b" and "p < length buf"
  shows "changeBase2Inline_rec buf p (Suc k) a b flag w wb outLoc =
    changeBase2Inline_rec buf (Suc p) k a b flag
      (w OR push_bit (nat wb) (ucast (buf ! p))) (wb + int a) (Some (out_offset p outLoc))"
proof (rule rec_fill_cong)
  show "changeBase2Inline_fill buf p (Suc k) a b w wb =
      changeBase2Inline_fill buf (Suc p) k a b (w OR push_bit (nat wb) (ucast (buf ! p))) (wb + int a)"
    using assms by simp
  show "out_offset p outLoc = out_offset (Suc p) (Some (out_offset p outLoc))"
    by (simp add: out_offset_def)
qed

lemma rec_last:
  "changeBase2Inline_rec buf p 0 a b flag w wb outLoc =
     (case store buf (out_offset p outLoc) (ucast (w AND mask b)) of
        None \<Rightarrow> None
      | Some buf' \<Rightarrow>
          if flag then changeBase2Inline_rest b (drop_bit b w) (wb - int b) buf'
                         (Suc (out_offset p outLoc))
          else Some buf')"
  unfolding out_offset_def by (subst changeBase2Inline_rec.simps) (simp add: Let_def)

lemma store_before_overwrite:
  assumes "Suc n + length s \<le> length dst"
  shows "store (overwrite dst (Suc n) s) n v = Some (overwrite dst n (v # s))"
proof -
  have n: "n < length dst"
    using assms by simp
  have t: "take (Suc n) dst = take n dst @ [dst ! n]"
    using n by (rule take_Suc_conv_app_nth)
  have "(overwrite dst (Suc n) s)[n := v] = overwrite dst n (v # s)"
    using n unfolding overwrite_def t by (simp add: list_update_append)
  then show ?thesis
    using assms n by (simp add: store_def length_overwrite)
qed

lemma symbols_Nil_step:
  assumes "0 < b" and "0 < wb"
  shows "symbols a b w wb [] =
     ucast (w AND mask b) #
       (if 0 < wb - int b then symbols a b (drop_bit b w) (wb - int b) [] else [])"
proof (cases "int b \<le> wb")
  case True
  have z: "symbols a b (drop_bit b w) 0 [] = []"
    using assms(1) by (simp add: symbols_end last_symbol_def)
  show ?thesis
    using True z symbols_drain [OF assms(1) True, of a w "[]"] by (cases "wb = int b") auto
next
  case False
  then show ?thesis
    using assms by (simp add: symbols_end last_symbol_def)
qed

lemma rest_ok:
  assumes b: "0 < b"
  shows "n + length (if 0 < wb then symbols a b w wb [] else []) \<le> length buf \<Longrightarrow>
    changeBase2Inline_rest b w wb buf n =
      Some (overwrite buf n (if 0 < wb then symbols a b w wb [] else []))"
proof (induction k \<equiv> "nat wb" arbitrary: w wb buf n rule: less_induct)
  case less
  show ?case
  proof (cases "0 < wb")
    case False
    then show ?thesis
      by (simp add: changeBase2Inline_rest.simps [of b w wb] overwrite_Nil)
  next
    case True
    let ?v = "ucast (w AND mask b) :: byte"
    let ?t = "if 0 < wb - int b then symbols a b (drop_bit b w) (wb - int b) [] else []"
    have s: "symbols a b w wb [] = ?v # ?t"
      using b True by (rule symbols_Nil_step)
    have cap: "Suc n + length ?t \<le> length buf"
      using less.prems True s by simp
    then have st: "store buf n ?v = Some (overwrite buf n [?v])"
      by (simp add: store_fresh)
    have lt: "nat (wb - int b) < nat wb"
      using True b by simp
    have cap': "Suc n + length ?t \<le> length (overwrite buf n [?v])"
      using cap by (simp add: length_overwrite)
    have "changeBase2Inline_rest b (drop_bit b w) (wb - int b) (overwrite buf n [?v]) (Suc n) =
        Some (overwrite (overwrite buf n [?v]) (Suc n) ?t)"
      using less.hyps [OF lt cap'] by simp
    also have "overwrite (overwrite buf n [?v]) (Suc n) ?t = overwrite buf n (?v # ?t)"
      using overwrite_overwrite [of n "[?v]" ?t buf] cap by simp
    finally show ?thesis
      using True st s by (simp add: changeBase2Inline_rest.simps [of b w wb])
  qed
qed

lemma rec_last_ok:
  assumes b: "0 < b" and wb: "0 < wb"
    and cap: "out_offset p outLoc +
        length (if flag then symbols a b w wb [] else [ucast (w AND mask b)]) \<le> length buf"
  shows "changeBase2Inline_rec buf p 0 a b flag w wb outLoc =
     Some (overwrite buf (out_offset p outLoc)
            (if flag then symbols a b w wb [] else [ucast (w AND mask b)]))"
proof -
  let ?n = "out_offset p outLoc"
  let ?v = "ucast (w AND mask b) :: byte"
  let ?t = "if 0 < wb - int b then symbols a b (drop_bit b w) (wb - int b) [] else []"
  have s: "symbols a b w wb [] = ?v # ?t"
    using b wb by (rule symbols_Nil_step)
  have n: "?n < length buf"
    using cap s by (simp split: if_splits)
  have st: "store buf ?n ?v = Some (overwrite buf ?n [?v])"
    using n by (rule store_fresh)
  show ?thesis
  proof (cases flag)
    case False
    then show ?thesis
      using st by (simp add: rec_last)
  next
    case True
    have c: "Suc ?n + length ?t \<le> length buf"
      using cap True s by simp
    then have c': "Suc ?n + length ?t \<le> length (overwrite buf ?n [?v])"
      by (simp add: length_overwrite)
    have "changeBase2Inline_rest b (drop_bit b w) (wb - int b) (overwrite buf ?n [?v]) (Suc ?n) =
        Some (overwrite (overwrite buf ?n [?v]) (Suc ?n) ?t)"
      using rest_ok [OF b, of "Suc ?n" "wb - int b" a "drop_bit b w" "overwrite buf ?n [?v]"] c'
      by simp
    also have "overwrite (overwrite buf ?n [?v]) (Suc ?n) ?t = overwrite buf ?n (?v # ?t)"
      using overwrite_overwrite [of ?n "[?v]" ?t buf] c by simp
    finally show ?thesis
      using True st s by (simp add: rec_last)
  qed
qed

lemma inline_out_drain:
  assumes "0 < b" and "int b \<le> wb"
  shows "inline_out flag a b w wb src =
    ucast (w AND mask b) # inline_out flag a b (drop_bit b w) (wb - int b) src"
proof -
  have k: "b \<le> nat wb" and k': "nat (wb - int b) = nat wb - b"
    using assms(2) by simp_all
  define X where "X = nat wb - b + (length src - 1) * a"
  have e: "nat wb + (length src - 1) * a = X + b"
    using k unfolding X_def by simp
  have "(X + b) div b = Suc (X div b)"
    using assms(1) div_add_self2 [of b X] by linarith
  then have c: "(nat wb + (length src - 1) * a) div b + 1 =
      Suc ((nat (wb - int b) + (length src - 1) * a) div b + 1)"
    unfolding e k' X_def by simp
  show ?thesis
    unfolding inline_out_def c symbols_drain [OF assms] by simp
qed

lemma inline_out_read:
  assumes "0 \<le> wb" and "wb < int b" and "xs \<noteq> []"
  shows "inline_out flag a b w wb (x # xs) =
    inline_out flag a b (w OR push_bit (nat wb) (ucast x)) (wb + int a) xs"
proof -
  obtain y ys where xs: "xs = y # ys"
    using assms(3) by (cases xs) auto
  have c: "nat wb + (length (x # xs) - 1) * a = nat (wb + int a) + (length xs - 1) * a"
    using assms(1) unfolding xs by (simp add: nat_add_distrib)
  show ?thesis
    unfolding inline_out_def c symbols_read [OF assms(2)] by simp
qed

lemma inline_out_last:
  assumes "0 < a" and "0 < b" and "0 \<le> wb" and "wb < int b"
  shows "inline_out flag a b w wb [x] =
    (if flag then symbols a b (w OR push_bit (nat wb) (ucast x)) (wb + int a) []
     else [ucast ((w OR push_bit (nat wb) (ucast x)) AND mask b)])"
proof -
  have pos: "0 < wb + int a"
    using assms(1,3) by simp
  have c: "(nat wb + (length [x] - 1) * a) div b + 1 = 1"
    using assms(3,4) by simp
  show ?thesis
    unfolding inline_out_def c symbols_read [OF assms(4)] symbols_Nil_step [OF assms(2) pos]
    by simp
qed

lemma take_drop_Suc:
  assumes "p < length buf"
  shows "take (Suc k) (drop p buf) = buf ! p # take k (drop (Suc p) buf)"
  using assms by (simp add: Cons_nth_drop_Suc [symmetric])

lemma rec_ok:
  assumes a: "0 < a" and b: "0 < b"
  shows "0 < k \<Longrightarrow> p + k \<le> length buf \<Longrightarrow> 0 \<le> wb \<Longrightarrow>
    out_offset p outLoc + length (inline_out flag a b w wb (take k (drop p buf))) \<le> length buf \<Longrightarrow>
    changeBase2Inline_rec buf p k a b flag w wb outLoc =
      Some (overwrite buf (out_offset p outLoc) (inline_out flag a b w wb (take k (drop p buf))))"
proof (induction k arbitrary: p w wb outLoc)
  case 0
  then show ?case by simp
next
  case (Suc k)
  from Suc.prems show ?case
  proof (induction j \<equiv> "nat wb" arbitrary: w wb outLoc rule: less_induct)
    case less
    let ?src = "take (Suc k) (drop p buf)"
    let ?n = "out_offset p outLoc"
    show ?case
    proof (cases "int b \<le> wb")
      case True
      let ?v = "ucast (w AND mask b) :: byte"
      let ?s = "inline_out flag a b (drop_bit b w) (wb - int b) ?src"
      have io: "inline_out flag a b w wb ?src = ?v # ?s"
        using b True by (rule inline_out_drain)
      have lt: "nat (wb - int b) < nat wb"
        using True b by simp
      have cap: "Suc ?n + length ?s \<le> length buf"
        using less.prems(4) io by simp
      have "changeBase2Inline_rec buf p (Suc k) a b flag (drop_bit b w) (wb - int b) (Some (Suc ?n)) =
          Some (overwrite buf (Suc ?n) ?s)"
        using less.hyps [OF lt _ less.prems(2), of "Some (Suc ?n)" "drop_bit b w"] True cap
        by (simp add: out_offset_def)
      moreover have "store (overwrite buf (Suc ?n) ?s) ?n ?v = Some (overwrite buf ?n (?v # ?s))"
        using cap by (rule store_before_overwrite)
      ultimately show ?thesis
        using rec_drain [OF True, of "Suc k" buf p a flag w outLoc] io by simp
    next
      case False
      then have wb: "wb < int b"
        by simp
      have p: "p < length buf"
        using less.prems(2) by simp
      let ?x = "buf ! p"
      let ?w = "w OR push_bit (nat wb) (ucast ?x)"
      let ?xs = "take k (drop (Suc p) buf)"
      have src: "?src = ?x # ?xs"
        using p by (rule take_drop_Suc)
      have rd: "changeBase2Inline_rec buf p (Suc k) a b flag w wb outLoc =
          changeBase2Inline_rec buf (Suc p) k a b flag ?w (wb + int a) (Some ?n)"
        using wb p by (rule rec_read)
      have n: "out_offset (Suc p) (Some ?n) = ?n"
        by (simp add: out_offset_def)
      show ?thesis
      proof (cases "k = 0")
        case True
        have io: "inline_out flag a b w wb ?src =
            (if flag then symbols a b ?w (wb + int a) [] else [ucast (?w AND mask b)])"
          using inline_out_last [OF a b less.prems(3) wb, of flag w ?x] src True by simp
        have pos: "0 < wb + int a"
          using a less.prems(3) by simp
        have "changeBase2Inline_rec buf (Suc p) 0 a b flag ?w (wb + int a) (Some ?n) =
            Some (overwrite buf ?n
              (if flag then symbols a b ?w (wb + int a) [] else [ucast (?w AND mask b)]))"
          using rec_last_ok [OF b pos, of "Suc p" "Some ?n" flag a ?w buf] less.prems(4) io n
          by simp
        then show ?thesis
          using rd io True by simp
      next
        case False
        then have xs: "?xs \<noteq> []"
          using less.prems(2) by simp
        have io: "inline_out flag a b w wb ?src = inline_out flag a b ?w (wb + int a) ?xs"
          using inline_out_read [OF less.prems(3) wb xs] src by simp
        have "changeBase2Inline_rec buf (Suc p) k a b flag ?w (wb + int a) (Some ?n) =
            Some (overwrite buf ?n (inline_out flag a b ?w (wb + int a) ?xs))"
          using Suc.IH [of "Suc p" "wb + int a" "Some ?n" ?w] False less.prems io n
          by simp
        then show ?thesis
          using rd io by simp
      qed
    qed
  qed
qed

lemma length_chunks: "length (chunks b k N) = k"
  by (induction k arbitrary: N) simp_all

lemma take_chunks: "n \<le> k \<Longrightarrow> take n (chunks b k N) = chunks b n N"
proof (induction n arbitrary: k N)
  case 0
  then show ?case by simp
next
  case (Suc n)
  then obtain k' where "k = Suc k'"
    by (cases k) auto
  with Suc show ?case by simp
qed

lemma chunks_less: "c \<in> set (chunks b k N) \<Longrightarrow> c < 2 ^ b"
  by (induction k arbitrary: N) auto

lemma unat_of_nat_byte:
  assumes "c < 2 ^ b" and "b \<le> 8"
  shows "unat (of_nat c :: byte) = c"
proof -
  have "(2::nat) ^ b \<le> 2 ^ 8"
    using assms(2) by (rule power_increasing) simp
  then have "c < 2 ^ 8"
    using assms(1) by linarith
  then show ?thesis
    by (simp add: unat_of_nat)
qed

lemma le_value_chunks:
  assumes "b \<le> 8"
  shows "le_value b (map of_nat (chunks b k N)) = N mod 2 ^ (b * k)"
proof (induction k arbitrary: N)
  case 0
  then show ?case by simp
next
  case (Suc k)
  have u: "unat (of_nat (N mod 2 ^ b) :: byte) = N mod 2 ^ b"
    using assms by (intro unat_of_nat_byte [of _ b]) simp_all
  have "le_value b (map of_nat (chunks b (Suc k) N)) =
      N mod 2 ^ b + 2 ^ b * ((N div 2 ^ b) mod 2 ^ (b * k))"
    using Suc.IH [of "N div 2 ^ b"] u by simp
  also have "\<dots> = N mod (2 ^ b * 2 ^ (b * k))"
    by (simp add: mod_mult2_eq)
  also have "\<dots> = N mod 2 ^ (b * Suc k)"
    by (simp add: power_add)
  finally show ?case .
qed

lemma chunks_le_value:
  "\<forall>x\<in>set xs. unat x < 2 ^ a \<Longrightarrow> map of_nat (chunks a (length xs) (le_value a xs)) = xs"
proof (induction xs)
  case Nil
  then show ?case by simp
next
  case (Cons x xs)
  have x: "unat x < 2 ^ a"
    using Cons.prems by simp
  have m: "(unat x + 2 ^ a * le_value a xs) mod 2 ^ a = unat x"
    using x by simp
  have d: "(unat x + 2 ^ a * le_value a xs) div 2 ^ a = le_value a xs"
    using x by simp
  show ?case
    using Cons m d by simp
qed

lemma le_value_less:
  "\<forall>x\<in>set xs. unat x < 2 ^ a \<Longrightarrow> le_value a xs < 2 ^ (a * length xs)"
proof (induction xs)
  case Nil
  then show ?case by simp
next
  case (Cons x xs)
  have "unat x + 2 ^ a * le_value a xs < 2 ^ (a + a * length xs)"
    using append_digit_less [of "unat x" a "le_value a xs" "a * length xs"] Cons by simp
  then show ?case by simp
qed

lemma drained_idle: "wb < int b \<Longrightarrow> drained b w wb = ([], w, wb)"
  by (simp add: drained.simps [of b w wb])

lemma symbols_start:
  assumes "0 < b" and "looped a b 0 0 src = (s, w', wb')"
  shows "symbols a b 0 0 src = s @ last_symbol b w' wb' True"
  using assms by (simp add: symbols_def drained_idle last_symbol_def)

lemma looped_div_mod:
  assumes l: "looped a b 0 0 src = (s, w', wb')" and b: "0 < b"
  shows "length s = (length src * a) div b" and "wb' = int ((length src * a) mod b)"
proof -
  have c: "int (length s * b) + wb' = int (length src * a) \<and> 0 \<le> wb' \<and> wb' < int b"
    using looped_count [OF l b] b by simp
  then have "length s * b + nat wb' = length src * a" and "nat wb' < b"
    by linarith+
  then have "length s = (length src * a) div b \<and> nat wb' = (length src * a) mod b"
    by (rule div_mod_unique_nat)
  then have q: "length s = (length src * a) div b" and r: "nat wb' = (length src * a) mod b"
    by simp_all
  show "length s = (length src * a) div b"
    by (rule q)
  show "wb' = int ((length src * a) mod b)"
    using r c by linarith
qed

lemma ceil_div:
  fixes N b :: nat
  assumes "0 < b"
  shows "(N + b - 1) div b = N div b + (if N mod b = 0 then 0 else 1)"
proof -
  define q r where "q = N div b" and "r = N mod b"
  have N: "N = r + q * b" and r: "r < b"
    using assms unfolding q_def r_def by simp_all
  show ?thesis
  proof (cases "r = 0")
    case True
    define t where "t = b - 1"
    have t: "t < b" and e: "N + b - 1 = t + q * b"
      using assms N True unfolding t_def by simp_all
    have "(t + q * b) div b = q"
      using t by simp
    then show ?thesis
      unfolding e using True q_def r_def by simp
  next
    case False
    define t where "t = r - 1"
    have t: "t < b" and e: "N + b - 1 = t + Suc q * b"
      using assms N r False unfolding t_def by simp_all
    have "(t + Suc q * b) div b = Suc q + t div b"
      using assms by (intro div_mult_self1) simp
    then have "(t + Suc q * b) div b = Suc q"
      using t by (simp only: div_less add_0_right)
    then show ?thesis
      unfolding e using False q_def r_def by simp
  qed
qed

lemma length_symbols:
  assumes "0 < b"
  shows "length (symbols a b 0 0 src) = (length src * a + b - 1) div b"
proof -
  obtain s w' wb' where l: "looped a b 0 0 src = (s, w', wb')"
    by (metis prod_cases3)
  show ?thesis
    using symbols_start [OF assms l] looped_div_mod [OF l assms] ceil_div [OF assms, of "length src * a"]
    by (simp add: last_symbol_def)
qed

lemma drained_bound:
  "drained b w wb = (s, r) \<Longrightarrow> y \<in> set s \<Longrightarrow> unat y < 2 ^ b"
proof (induction b w wb arbitrary: s rule: drained.induct)
  case (1 b w wb)
  show ?case
  proof (cases "0 < b \<and> int b \<le> wb")
    case False
    then show ?thesis
      using "1.prems" by (auto simp: drained.simps [of b w wb])
  next
    case True
    obtain s' where s': "drained b (drop_bit b w) (wb - int b) = (s', r)"
      and s: "s = ucast (w AND mask b) # s'"
      using "1.prems" True by (auto simp: drained.simps [of b w wb] split: prod.splits)
    show ?thesis
      using "1.IH" [OF True s'] "1.prems"(2) s unat_symbol [of w b] by auto
  qed
qed

lemma looped_bound:
  "looped a b w wb src = (s, r) \<Longrightarrow> y \<in> set s \<Longrightarrow> unat y < 2 ^ b"
proof (induction src arbitrary: w wb s)
  case Nil
  then show ?case by simp
next
  case (Cons x src)
  obtain s1 w1 wb1 where d: "drained b (w OR push_bit (nat wb) (ucast x)) (wb + int a) = (s1, w1, wb1)"
    by (metis prod_cases3)
  obtain s2 where l: "looped a b w1 wb1 src = (s2, r)" and s: "s = s1 @ s2"
    using Cons.prems(1) d by (auto split: prod.splits)
  show ?case
    using Cons.IH [OF l] drained_bound [OF d] Cons.prems(2) s by auto
qed

lemma symbols_bound:
  assumes "0 < b" and "y \<in> set (symbols a b 0 0 src)"
  shows "unat y < 2 ^ b"
proof -
  obtain s w' wb' where l: "looped a b 0 0 src = (s, w', wb')"
    by (metis prod_cases3)
  have "y \<in> set s \<or> y = ucast (w' AND mask b)"
    using assms(2) symbols_start [OF assms(1) l] by (auto simp: last_symbol_def split: if_splits)
  then show ?thesis
    using looped_bound [OF l] unat_symbol [of w' b] by auto
qed

lemma changeBase2_written:
  fixes src dst :: "byte list" and a b dstLen :: nat
  assumes b: "0 < b"
  defines "full \<equiv> (length src * a) div b"
  defines "cnt \<equiv> full + (if (length src * a) mod b \<noteq> 0 \<and> full < dstLen then 1 else 0)"
  assumes cap: "cnt \<le> length dst"
  shows "changeBase2 src a dst dstLen b = Some (overwrite dst 0 (take cnt (symbols a b 0 0 src)), cnt)"
    and "cnt \<le> length (symbols a b 0 0 src)"
proof -
  obtain s w' wb' where l: "looped a b 0 0 src = (s, w', wb')"
    by (metis prod_cases3)
  have len: "length s = full" and wb': "wb' = int ((length src * a) mod b)"
    using looped_div_mod [OF l b] unfolding full_def by simp_all
  have sy: "symbols a b 0 0 src = s @ last_symbol b w' wb' True"
    using b l by (rule symbols_start)
  let ?room = "length s < dstLen"
  have c: "length (s @ last_symbol b w' wb' ?room) = cnt"
    using len wb' unfolding cnt_def by (simp add: last_symbol_def)
  have t: "s @ last_symbol b w' wb' ?room = take cnt (symbols a b 0 0 src)"
    using len wb' unfolding cnt_def sy by (simp add: last_symbol_def)
  have "changeBase2 src a dst dstLen b =
      Some (overwrite dst 0 (s @ last_symbol b w' wb' ?room), length (s @ last_symbol b w' wb' ?room))"
    using l b cap unfolding c [symmetric] by (rule changeBase2_ok)
  then show "changeBase2 src a dst dstLen b =
      Some (overwrite dst 0 (take cnt (symbols a b 0 0 src)), cnt)"
    using c t by simp
  show "cnt \<le> length (symbols a b 0 0 src)"
    using len wb' unfolding cnt_def sy by (simp add: last_symbol_def)
qed

lemma take_overwrite: "length s \<le> length dst \<Longrightarrow> take (length s) (overwrite dst 0 s) = s"
  by (simp add: overwrite_def)

lemma drop_overwrite: "length s \<le> length dst \<Longrightarrow> drop (length s) (overwrite dst 0 s) = drop (length s) dst"
  by (simp add: overwrite_def)

lemma overwrite_0: "overwrite dst 0 s = s @ drop (length s) dst"
  by (simp add: overwrite_def)

section \<open>changeBase2: what is written\<close>

text \<open>
  Claim C9. For \<open>n\<close> source bytes and a destination width \<open>dst2Pow > 0\<close>,
  \<open>changeBase2\<close> writes \<open>n * src2Pow div dst2Pow\<close> full symbols and then one more symbol
  exactly when \<open>n * src2Pow mod dst2Pow\<close> is not zero and fewer than \<open>dstLen\<close> symbols
  have been written; provided the destination array holds that many bytes, the call
  returns, the rest of the array is untouched, and every byte written is below
  \<open>2 ^ dst2Pow\<close>. When moreover the source bytes fit in \<open>src2Pow\<close> bits (and the
  destination width is at most 8), the bytes written are the lowest digits in base
  \<open>2 ^ dst2Pow\<close> of the number that the source spells in base \<open>2 ^ src2Pow\<close>: the
  additional symbol holds the remaining bits.
\<close>

theorem changeBase2_output:
  fixes src dst :: "byte list" and src2Pow dst2Pow dstLen :: nat
  defines "full \<equiv> (length src * src2Pow) div dst2Pow"
  defines "cnt \<equiv> full + (if (length src * src2Pow) mod dst2Pow \<noteq> 0 \<and> full < dstLen then 1 else 0)"
  assumes b: "0 < dst2Pow" and cap: "cnt \<le> length dst"
  shows "\<exists>dst'. changeBase2 src src2Pow dst dstLen dst2Pow = Some (dst', cnt) \<and>
           length dst' = length dst \<and> drop cnt dst' = drop cnt dst \<and>
           (\<forall>i<cnt. unat (dst' ! i) < 2 ^ dst2Pow) \<and>
           (dst2Pow \<le> 8 \<and> (\<forall>x\<in>set src. unat x < 2 ^ src2Pow) \<longrightarrow>
              take cnt dst' = map of_nat (chunks dst2Pow cnt (le_value src2Pow src)))"
proof -
  let ?sy = "symbols src2Pow dst2Pow 0 0 src"
  let ?out = "take cnt ?sy"
  have r: "changeBase2 src src2Pow dst dstLen dst2Pow = Some (overwrite dst 0 ?out, cnt)"
    and le: "cnt \<le> length ?sy"
    using changeBase2_written [OF b, of src src2Pow dstLen dst] cap
    unfolding cnt_def full_def by simp_all
  have lo: "length ?out = cnt"
    using le by simp
  have l1: "length (overwrite dst 0 ?out) = length dst"
    using cap lo by (simp add: length_overwrite)
  have l2: "drop cnt (overwrite dst 0 ?out) = drop cnt dst"
    using drop_overwrite [of ?out dst] cap lo by simp
  have tk: "take cnt (overwrite dst 0 ?out) = ?out"
    using take_overwrite [of ?out dst] cap lo by simp
  have l3: "\<forall>i<cnt. unat (overwrite dst 0 ?out ! i) < 2 ^ dst2Pow"
  proof (intro allI impI)
    fix i assume i: "i < cnt"
    have "overwrite dst 0 ?out ! i = ?out ! i"
      using i lo by (simp add: overwrite_0 nth_append)
    moreover have "?out ! i \<in> set ?sy"
      using i lo by (metis in_set_takeD nth_mem)
    ultimately show "unat (overwrite dst 0 ?out ! i) < 2 ^ dst2Pow"
      using symbols_bound [OF b] by simp
  qed
  have l4: "take cnt (overwrite dst 0 ?out) = map of_nat (chunks dst2Pow cnt (le_value src2Pow src))"
    if "dst2Pow \<le> 8" and fit: "\<forall>x\<in>set src. unat x < 2 ^ src2Pow"
  proof -
    have "?sy = map of_nat (chunks dst2Pow ((nat 0 + src2Pow * length src + dst2Pow - 1) div dst2Pow)
        (unat (0 :: 64 word) + 2 ^ nat 0 * le_value src2Pow src))"
      using b that(1) fit by (intro symbols_chunks) simp_all
    then have "?sy = map of_nat (chunks dst2Pow (length ?sy) (le_value src2Pow src))"
      using length_symbols [OF b, of src2Pow src] by (simp add: mult.commute)
    then have "?out = map of_nat (take cnt (chunks dst2Pow (length ?sy) (le_value src2Pow src)))"
      by (metis take_map)
    then show ?thesis
      using le tk by (simp add: take_chunks)
  qed
  show ?thesis
    using r l1 l2 l3 l4 by blast
qed


theorem changeBase2_output_witness:
  "\<exists>dst'. changeBase2 [255, 255] 8 [0, 0, 0, 7] 3 6 = Some (dst', 3) \<and>
     length dst' = 4 \<and> drop 3 dst' = [7] \<and> take 3 dst' = [63, 63, 15]"
proof -
  have fit: "\<forall>x\<in>set [255, 255 :: byte]. unat x < 2 ^ 8"
    by simp
  have "map of_nat (chunks 6 (Suc (Suc (Suc 0))) (le_value 8 [255, 255])) = [63, 63, 15 :: byte]"
    by simp
  then have c: "map of_nat (chunks 6 3 (le_value 8 [255, 255])) = [63, 63, 15 :: byte]"
    by (simp only: numeral_3_eq_3)
  from changeBase2_output [where src = "[255, 255]" and ?src2Pow.0 = 8 and ?dst2Pow.0 = 6
      and dstLen = 3 and dst = "[0, 0, 0, 7]"]
  obtain dst' where "changeBase2 [255, 255] 8 [0, 0, 0, 7] 3 6 = Some (dst', 3)"
    and "length dst' = 4" and "drop 3 dst' = [7]"
    and "take 3 dst' = map of_nat (chunks 6 3 (le_value 8 [255, 255]))"
    using fit by auto
  then show ?thesis
    using c by simp
qed

lemma ceil_mult_ge:
  fixes N b :: nat
  assumes "0 < b"
  shows "N \<le> ((N + b - 1) div b) * b"
proof -
  define q r where "q = N div b" and "r = N mod b"
  have N: "N = q * b + r" and r: "r < b"
    using assms unfolding q_def r_def by simp_all
  have c: "(N + b - 1) div b = q + (if r = 0 then 0 else 1)"
    unfolding q_def r_def using assms by (rule ceil_div)
  show ?thesis
  proof (cases "r = 0")
    case True
    then show ?thesis
      unfolding c using N by simp
  next
    case False
    have "q * b + r \<le> q * b + b"
      using r by simp
    then show ?thesis
      unfolding c using N False by (simp add: algebra_simps)
  qed
qed

lemma changeBase2_large:
  fixes src dst :: "byte list" and a b dstLen :: nat
  assumes b: "0 < b" and "length (symbols a b 0 0 src) \<le> dstLen"
    and "length (symbols a b 0 0 src) \<le> length dst"
  shows "changeBase2 src a dst dstLen b =
    Some (overwrite dst 0 (symbols a b 0 0 src), length (symbols a b 0 0 src))"
proof -
  let ?N = "length src * a"
  let ?cnt = "?N div b + (if ?N mod b \<noteq> 0 \<and> ?N div b < dstLen then 1 else 0)"
  have m: "length (symbols a b 0 0 src) = ?N div b + (if ?N mod b = 0 then 0 else 1)"
    using length_symbols [OF b, of a src] ceil_div [OF b, of ?N] by simp
  have c: "?cnt = length (symbols a b 0 0 src)"
    using assms(2) m by (simp split: if_splits)
  show ?thesis
    using changeBase2_written(1) [OF b, of src a dstLen dst] assms(3) unfolding c by simp
qed

section \<open>changeBase2: there and back\<close>

text \<open>
  Claim C1. For widths \<open>a\<close> and \<open>b\<close> between 1 and 8 and \<open>n\<close> bytes \<open>x\<close> that each fit in
  \<open>a\<close> bits, converting \<open>x\<close> from \<open>a\<close>-bit to \<open>b\<close>-bit symbols and the bytes written back
  from \<open>b\<close>-bit to \<open>a\<close>-bit symbols, each time into a destination that is large enough
  (\<open>m\<close> bytes for the first call, \<open>k\<close> for the second), gives bytes of which the first
  \<open>n\<close> are \<open>x\<close>. Both calls return, and write \<open>m\<close> and \<open>k\<close> bytes.
\<close>

theorem changeBase2_round_trip:
  fixes x dst1 dst2 :: "byte list" and a b dstLen1 dstLen2 :: nat
  defines "m \<equiv> (length x * a + b - 1) div b"
  defines "k \<equiv> (m * b + a - 1) div a"
  assumes a: "1 \<le> a" "a \<le> 8" and b: "1 \<le> b" "b \<le> 8"
    and fit: "\<forall>v\<in>set x. unat v < 2 ^ a"
    and room1: "m \<le> dstLen1" "m \<le> length dst1"
    and room2: "k \<le> dstLen2" "k \<le> length dst2"
  shows "\<exists>d1 d2. changeBase2 x a dst1 dstLen1 b = Some (d1, m) \<and>
           changeBase2 (take m d1) b dst2 dstLen2 a = Some (d2, k) \<and>
           take (length x) d2 = x"
proof -
  have a0: "0 < a" and b0: "0 < b"
    using a b by simp_all
  let ?N = "le_value a x"
  let ?y = "symbols a b 0 0 x"
  let ?z = "symbols b a 0 0 ?y"
  have ly: "length ?y = m"
    unfolding m_def using b0 by (rule length_symbols)
  have lz: "length ?z = k"
    unfolding k_def using length_symbols [OF a0, of b ?y] ly by simp
  have y: "?y = map of_nat (chunks b m ?N)"
  proof -
    have "?y = map of_nat (chunks b ((nat 0 + a * length x + b - 1) div b)
        (unat (0 :: 64 word) + 2 ^ nat 0 * ?N))"
      using b0 b(2) fit by (intro symbols_chunks) simp_all
    then show ?thesis
      unfolding m_def by (simp add: mult.commute)
  qed
  have fity: "\<forall>v\<in>set ?y. unat v < 2 ^ b"
    using symbols_bound [OF b0] by blast
  have an: "length x * a \<le> m * b"
    unfolding m_def using b0 by (rule ceil_mult_ge)
  have "?N < 2 ^ (a * length x)"
    using fit by (rule le_value_less)
  also have "(2::nat) ^ (a * length x) \<le> 2 ^ (b * m)"
    using an by (intro power_increasing) (simp_all add: mult.commute)
  finally have N: "?N < 2 ^ (b * m)" .
  have vy: "le_value b ?y = ?N"
    using le_value_chunks [OF b(2), of m ?N] N unfolding y by simp
  have z: "?z = map of_nat (chunks a k ?N)"
  proof -
    have "?z = map of_nat (chunks a ((nat 0 + b * length ?y + a - 1) div a)
        (unat (0 :: 64 word) + 2 ^ nat 0 * le_value b ?y))"
      using a0 a(2) fity by (intro symbols_chunks) simp_all
    then show ?thesis
      unfolding k_def using ly vy by (simp add: mult.commute)
  qed
  have "length x * a div a \<le> (m * b + a - 1) div a"
    using an a0 by (intro div_le_mono) linarith
  then have nk: "length x \<le> k"
    unfolding k_def using a0 by simp
  have tz: "take (length x) ?z = x"
  proof -
    have "take (length x) ?z = map of_nat (take (length x) (chunks a k ?N))"
      unfolding z by (rule take_map)
    also have "\<dots> = map of_nat (chunks a (length x) ?N)"
      using nk by (simp add: take_chunks)
    also have "\<dots> = x"
      using fit by (rule chunks_le_value)
    finally show ?thesis .
  qed
  have r1: "changeBase2 x a dst1 dstLen1 b = Some (overwrite dst1 0 ?y, m)"
    using changeBase2_large [OF b0, of a x dstLen1 dst1] room1 ly by simp
  have t1: "take m (overwrite dst1 0 ?y) = ?y"
    using take_overwrite [of ?y dst1] room1(2) ly by simp
  have r2: "changeBase2 ?y b dst2 dstLen2 a = Some (overwrite dst2 0 ?z, k)"
    using changeBase2_large [OF a0, of b ?y dstLen2 dst2] room2 lz by simp
  have t2: "take (length x) (overwrite dst2 0 ?z) = x"
    using tz nk lz by (simp add: overwrite_0)
  show ?thesis
    using r1 r2 t1 t2 by simp
qed

theorem changeBase2_round_trip_witness:
  "\<exists>d1 d2. changeBase2 [1, 2, 3] 8 [0, 0, 0, 0] 4 6 = Some (d1, 4) \<and>
     changeBase2 (take 4 d1) 6 [9, 9, 9] 3 8 = Some (d2, 3) \<and> take 3 d2 = [1, 2, 3]"
proof -
  have fit: "\<forall>v\<in>set [1, 2, 3 :: byte]. unat v < 2 ^ 8"
    by simp
  show ?thesis
    using changeBase2_round_trip [where x = "[1, 2, 3]" and a = 8 and b = 6 and ?dstLen1.0 = 4
        and ?dst1.0 = "[0, 0, 0, 0]" and ?dstLen2.0 = 3 and ?dst2.0 = "[9, 9, 9]"] fit
    by (simp add: numeral_3_eq_3)
qed

lemma inline_count_le:
  fixes n a b :: nat
  assumes "0 < a" and "0 < b" and "0 < n"
  shows "((n - 1) * a) div b + 1 \<le> (n * a + b - 1) div b"
proof -
  obtain j where n: "n = Suc j"
    using assms(3) by (cases n) auto
  have le: "j * a + b \<le> Suc j * a + b - 1"
    using assms(1) by simp
  have "(j * a) div b + 1 = (j * a + b) div b"
    using assms(2) div_add_self2 [of b "j * a"] by linarith
  also have "\<dots> \<le> (Suc j * a + b - 1) div b"
    using le by (rule div_le_mono)
  finally show ?thesis
    unfolding n by simp
qed

lemma inline_count_exact:
  fixes n a b :: nat
  assumes "0 < a" and "a \<le> b" and "0 < n" and "(n * a) mod b < a"
  shows "((n - 1) * a) div b + 1 = (n * a) div b"
proof -
  obtain j where n: "n = Suc j"
    using assms(3) by (cases n) auto
  define F r where "F = (n * a) div b" and "r = (n * a) mod b"
  have e: "j * a + a = F * b + r"
    unfolding F_def r_def n by simp
  have r: "r < a"
    using assms(4) unfolding r_def .
  have "F \<noteq> 0"
  proof
    assume "F = 0"
    then have "j * a + a = r"
      using e by simp
    then show False
      using r by simp
  qed
  then obtain G where F: "F = Suc G"
    by (cases F) auto
  have "G * b + (b + r - a) = j * a" and "b + r - a < b"
    using e r assms(1,2) unfolding F by simp_all
  then have "G = (j * a) div b \<and> b + r - a = (j * a) mod b"
    by (rule div_mod_unique_nat)
  then show ?thesis
    unfolding n using F F_def n by simp
qed

section \<open>changeBase2Inline against changeBase2\<close>

text \<open>
  What the in-place variant leaves. For a source of \<open>n \<ge> 1\<close> bytes at the start of
  \<open>buf\<close>, widths between 1 and 8, and arrays that hold all \<open>m\<close> output symbols:
  \<open>changeBase2\<close> writes \<open>m\<close> bytes to its destination; \<open>changeBase2Inline\<close> with
  \<open>outputPartialLastByte\<close> set leaves the same \<open>m\<close> bytes, in the same order, at the
  start of \<open>buf\<close> and the rest of \<open>buf\<close> as it was; with \<open>outputPartialLastByte\<close> clear it
  leaves the first \<open>k = (n - 1) * a div b + 1\<close> of them, one for each call of the helper,
  and the rest of \<open>buf\<close> as it was. When \<open>a \<le> b\<close> and \<open>n * a mod b < a\<close> (the last source
  byte completes a symbol, as it does for every encoding of whole bytes), these are the
  \<open>n * a div b\<close> full symbols: all that \<open>changeBase2\<close> writes but the partial symbol.
\<close>

lemma changeBase2Inline_written:
  fixes buf dst :: "byte list" and n a b dstLen :: nat
  defines "m \<equiv> (n * a + b - 1) div b"
  defines "k \<equiv> ((n - 1) * a) div b + 1"
  assumes a: "1 \<le> a" "a \<le> 8" and b: "1 \<le> b" "b \<le> 8"
    and n: "0 < n" "n \<le> length buf"
    and room: "m \<le> length buf" "m \<le> dstLen" "m \<le> length dst"
  shows "\<exists>dst'. changeBase2 (take n buf) a dst dstLen b = Some (dst', m) \<and>
           changeBase2Inline buf n a b True = Some (take m dst' @ drop m buf) \<and>
           changeBase2Inline buf n a b False = Some (take k dst' @ drop k buf) \<and>
           k \<le> m \<and> (a \<le> b \<and> (n * a) mod b < a \<longrightarrow> k = (n * a) div b)"
proof -
  have a0: "0 < a" and b0: "0 < b"
    using a b by simp_all
  let ?src = "take n buf"
  let ?y = "symbols a b 0 0 ?src"
  have ls: "length ?src = n"
    using n(2) by simp
  have ly: "length ?y = m"
    unfolding m_def using length_symbols [OF b0, of a ?src] ls by simp
  have km: "k \<le> m"
    unfolding k_def m_def using a0 b0 n(1) by (rule inline_count_le)
  have r: "changeBase2 ?src a dst dstLen b = Some (overwrite dst 0 ?y, m)"
    using changeBase2_large [OF b0, of a ?src dstLen dst] room ly by simp
  have t: "take m (overwrite dst 0 ?y) = ?y"
    using take_overwrite [of ?y dst] room(3) ly by simp
  have "take k (take m (overwrite dst 0 ?y)) = take k (overwrite dst 0 ?y)"
    using km by (simp add: min_def)
  then have tk: "take k (overwrite dst 0 ?y) = take k ?y"
    unfolding t by simp
  have io: "inline_out flag a b 0 0 ?src = (if flag then ?y else take k ?y)" for flag
    unfolding inline_out_def k_def ls by simp
  have rec: "changeBase2Inline buf n a b flag = Some (overwrite buf 0 (inline_out flag a b 0 0 ?src))"
    for flag
  proof -
    have "length (inline_out flag a b 0 0 ?src) \<le> length buf"
      using io [of flag] ly room(1) by (simp split: if_splits)
    then show ?thesis
      unfolding changeBase2Inline_def
      using rec_ok [OF a0 b0 n(1), of 0 buf 0 None flag 0] n(2)
      by (simp add: out_offset_def)
  qed
  have i1: "changeBase2Inline buf n a b True = Some (?y @ drop m buf)"
    using rec [of True] io [of True] ly by (simp add: overwrite_0)
  have i2: "changeBase2Inline buf n a b False = Some (take k ?y @ drop k buf)"
    using rec [of False] io [of False] ly km by (simp add: overwrite_0)
  have ex: "k = (n * a) div b" if "a \<le> b" and "(n * a) mod b < a"
    unfolding k_def using a0 that(1) n(1) that(2) by (rule inline_count_exact)
  show ?thesis
    using r t tk i1 i2 km ex by simp
qed

text \<open>
  An instance with \<open>k < m\<close>: three 6-bit symbols repacked into bytes are two full bytes
  and a partial one, and with the flag clear the partial one is not written.
\<close>

lemma changeBase2Inline_written_example:
  "\<exists>dst'. changeBase2 (take 3 [1, 2, 3, 9]) 6 [0, 0, 0] 3 8 = Some (dst', 3) \<and>
     changeBase2Inline [1, 2, 3, 9] 3 6 8 True = Some (take 3 dst' @ drop 3 [1, 2, 3, 9]) \<and>
     changeBase2Inline [1, 2, 3, 9] 3 6 8 False = Some (take 2 dst' @ drop 2 [1, 2, 3, 9])"
  using changeBase2Inline_written [where buf = "[1, 2, 3, 9]" and n = 3 and a = 6 and b = 8
      and dstLen = 3 and dst = "[0, 0, 0]"]
  by (simp add: numeral_2_eq_2)

text \<open>
  Claim C2. The in-place variant is to leave in its buffer the bytes that \<open>changeBase2\<close>
  writes for the same input when \<open>outputPartialLastByte\<close> is set, and those bytes without
  a trailing partial symbol when it is clear. The code does so only where the lemma
  above says it. Its last call writes one value whatever the work buffer holds, and
  with the flag clear nothing after it:
  \<^item> from the three bytes 255, 255, 255 at widths 8 and 6, \<open>changeBase2\<close> writes four full
    symbols (24 bits, no partial symbol), and the in-place variant with the flag clear
    leaves three of them and the fourth byte of the array as it was;
  \<^item> from the three symbols 31, 31, 31 at widths 5 and 8, \<open>changeBase2\<close> writes one full
    byte and a partial one (15 bits), and the in-place variant with the flag clear
    writes both, the partial one too;
  \<^item> from no bytes at all \<open>changeBase2\<close> writes nothing, and the in-place variant with
    the flag set writes a byte.
\<close>

theorem changeBase2Inline_diverges:
  "changeBase2 [255, 255, 255] 8 [0, 0, 0, 0] 4 6 = Some ([63, 63, 63, 63], 4) \<and>
   (3 * 8) mod 6 = (0 :: nat) \<and>
   changeBase2Inline [255, 255, 255, 7] 3 8 6 False = Some [63, 63, 63, 7] \<and>
   changeBase2 [31, 31, 31] 5 [0, 0] 2 8 = Some ([255, 127], 2) \<and>
   (3 * 5) div 8 = (1 :: nat) \<and>
   changeBase2Inline [31, 31, 31, 9] 3 5 8 False = Some [255, 127, 31, 9] \<and>
   changeBase2 [] 8 [9] 1 6 = Some ([9], 0) \<and>
   changeBase2Inline [9] 0 8 6 True = Some [0]"
  by code_simp

text \<open>
  Claim C10. With \<open>srcLen = 0\<close> the public \<open>changeBase2Inline\<close> writes one byte, the
  value 0, at the start of the array and nothing else, whatever the widths and the flag.
\<close>

theorem changeBase2Inline_empty:
  "changeBase2Inline (x # buf) 0 src2Pow dst2Pow outputPartialLastByte = Some (0 # buf)"
proof -
  have r: "changeBase2Inline_rest dst2Pow (drop_bit dst2Pow 0) (0 - int dst2Pow) (0 # buf) (Suc 0) =
      Some (0 # buf)"
    by (simp add: changeBase2Inline_rest.simps [of dst2Pow _ "- int dst2Pow"])
  show ?thesis
    unfolding changeBase2Inline_def rec_last using r by (simp add: out_offset_def store_def)
qed

section \<open>The alphabets\<close>

lemma for_each_byte_from:
  "offset \<le> len \<Longrightarrow> len \<le> length buf \<Longrightarrow>
   for_each_byte f buf len offset =
     Some (take offset buf @ map f (take (len - offset) (drop offset buf)) @ drop len buf)"
proof (induction f buf len offset rule: for_each_byte.induct)
  case (1 f buf len offset)
  show ?case
  proof (cases "offset < len")
    case False
    then have "for_each_byte f buf len offset = Some buf"
      by (simp add: for_each_byte.simps [of f buf len offset])
    then show ?thesis
      using False "1.prems" by simp
  next
    case True
    then have o: "offset < length buf"
      using "1.prems" by simp
    let ?buf = "buf[offset := f (buf ! offset)]"
    have ih: "for_each_byte f ?buf len (Suc offset) =
        Some (take (Suc offset) ?buf @ map f (take (len - Suc offset) (drop (Suc offset) ?buf)) @
              drop len ?buf)"
      using "1.IH" [OF True o] True "1.prems" by simp
    have t: "take (Suc offset) ?buf = take offset buf @ [f (buf ! offset)]"
      using o by (simp add: take_Suc_conv_app_nth)
    have d: "drop (Suc offset) ?buf = drop (Suc offset) buf"
      by simp
    have d': "drop len ?buf = drop len buf"
      using True by simp
    have s: "take (len - offset) (drop offset buf) =
        buf ! offset # take (len - Suc offset) (drop (Suc offset) buf)"
      using True o by (metis Cons_nth_drop_Suc Suc_diff_Suc take_Suc_Cons)
    show ?thesis
      using True o ih by (simp add: for_each_byte.simps [of f buf len offset] t d d' s)
  qed
qed

lemma for_each_byte_all: "for_each_byte f buf (length buf) 0 = Some (map f buf)"
  using for_each_byte_from [of 0 "length buf" buf f] by simp

lemma b64_table:
  "list_all (\<lambda>n. B64ToAscii_ch (of_nat n) = ascii (b64_alphabet ! n) \<and>
      B64ToAscii_ch (of_nat n) \<noteq> ascii CHR ''/'' \<and> B64ToAscii_ch (of_nat n) \<noteq> ascii CHR ''.'' \<and>
      AsciiToB64_ch (B64ToAscii_ch (of_nat n)) = of_nat n) [0..<64]"
  by code_simp

lemma b32_table:
  "list_all (\<lambda>n. B32ToAscii_ch (of_nat n) = ascii (b32_alphabet ! n) \<and>
      B32ToAscii_ch (of_nat n) =
        (if n < 26 then ascii CHR ''A'' + of_nat n else ascii CHR ''2'' + (of_nat n - 26)) \<and>
      AsciiToB32_ch (B32ToAscii_ch (of_nat n)) = of_nat n \<and>
      AsciiToB32_ch (lowercase (B32ToAscii_ch (of_nat n))) = of_nat n) [0..<32]"
  by code_simp

lemma byte_below:
  fixes v :: byte
  assumes "unat v < k"
  shows "\<exists>n \<in> set [0..<k]. v = of_nat n"
  using assms by (intro bexI [of _ "unat v"]) simp_all


text \<open>
  Claim C4. On a buffer of 6-bit symbols (bytes from 0 to 63) \<open>B64ToAscii\<close> replaces each
  symbol \<open>v\<close> by the character at index \<open>v\<close> of the alphabet
  \<^verbatim>\<open>,-0123456789ABCDEFGHIJKLMNOPQRSTUVWXYZabcdefghijklmnopqrstuvwxyz\<close>, so that neither
  \<^verbatim>\<open>/\<close> nor \<^verbatim>\<open>.\<close> occurs in its output, and \<open>AsciiToB64\<close> on that output gives the
  symbols back.
\<close>

theorem b64_ascii_round_trip:
  assumes "\<forall>v\<in>set buf. unat v \<le> 63"
  shows "\<exists>enc. B64ToAscii buf (length buf) = Some enc \<and>
           enc = map (\<lambda>v. ascii (b64_alphabet ! unat v)) buf \<and>
           ascii CHR ''/'' \<notin> set enc \<and> ascii CHR ''.'' \<notin> set enc \<and>
           AsciiToB64 enc (length enc) = Some buf"
proof -
  have each: "B64ToAscii_ch v = ascii (b64_alphabet ! unat v) \<and>
      B64ToAscii_ch v \<noteq> ascii CHR ''/'' \<and> B64ToAscii_ch v \<noteq> ascii CHR ''.'' \<and>
      AsciiToB64_ch (B64ToAscii_ch v) = v" if "v \<in> set buf" for v
  proof -
    have "unat v \<in> set [0..<64]"
      using assms that by fastforce
    then show ?thesis
      using b64_table unfolding list_all_iff by fastforce
  qed
  have r1: "AsciiToB64_ch (B64ToAscii_ch v) = v" if "v \<in> set buf" for v
    using each [OF that] by blast
  let ?enc = "map B64ToAscii_ch buf"
  have e: "B64ToAscii buf (length buf) = Some ?enc"
    unfolding B64ToAscii_def by (rule for_each_byte_all)
  have a: "?enc = map (\<lambda>v. ascii (b64_alphabet ! unat v)) buf"
    using each by simp
  have "B64ToAscii_ch v \<noteq> ascii CHR ''/'' \<and> B64ToAscii_ch v \<noteq> ascii CHR ''.''"
    if "v \<in> set buf" for v
    using each [OF that] by blast
  note no = this
  have n1: "ascii CHR ''/'' \<notin> set ?enc"
  proof
    assume "ascii CHR ''/'' \<in> set ?enc"
    then obtain v where "ascii CHR ''/'' = B64ToAscii_ch v" and "v \<in> set buf"
      unfolding set_map by (rule imageE)
    with no [of v] show False
      by simp
  qed
  have n2: "ascii CHR ''.'' \<notin> set ?enc"
  proof
    assume "ascii CHR ''.'' \<in> set ?enc"
    then obtain v where "ascii CHR ''.'' = B64ToAscii_ch v" and "v \<in> set buf"
      unfolding set_map by (rule imageE)
    with no [of v] show False
      by simp
  qed
  have "AsciiToB64 ?enc (length ?enc) = Some (map AsciiToB64_ch ?enc)"
    unfolding AsciiToB64_def by (rule for_each_byte_all)
  also have "map AsciiToB64_ch ?enc = buf"
    using r1 by (simp add: map_idI)
  finally have d: "AsciiToB64 ?enc (length ?enc) = Some buf" .
  show ?thesis
    by (rule exI [of _ ?enc]) (intro conjI e a n1 n2 d)
qed

theorem b64_ascii_round_trip_witness:
  "B64ToAscii [0, 11, 12, 37, 38, 63] 6 = Some (map ascii '',9AZaz'') \<and>
   AsciiToB64 (map ascii '',9AZaz'') 6 = Some [0, 11, 12, 37, 38, 63]"
proof -
  define buf :: "byte list" where "buf = [0, 11, 12, 37, 38, 63]"
  have fit: "\<forall>v\<in>set buf. unat v \<le> 63"
    unfolding buf_def by simp
  have len: "length buf = 6"
    unfolding buf_def by simp
  have a: "map (\<lambda>v. ascii (b64_alphabet ! unat v)) buf = map ascii '',9AZaz''"
    unfolding buf_def by (simp add: b64_alphabet_def)
  from b64_ascii_round_trip [OF fit] obtain enc where
    e: "B64ToAscii buf (length buf) = Some enc"
    and enc: "enc = map (\<lambda>v. ascii (b64_alphabet ! unat v)) buf"
    and d: "AsciiToB64 enc (length enc) = Some buf"
    by blast
  have enc': "enc = map ascii '',9AZaz''"
    using enc a by simp
  have le: "length enc = 6"
    unfolding enc' by simp
  have "B64ToAscii buf 6 = Some (map ascii '',9AZaz'') \<and>
      AsciiToB64 (map ascii '',9AZaz'') 6 = Some buf"
    using e [unfolded len] d [unfolded le] unfolding enc' by simp
  then show ?thesis
    unfolding buf_def .
qed

text \<open>
  Claim C5. On a buffer of 5-bit symbols (bytes from 0 to 31) \<open>B32ToAscii\<close> replaces a
  symbol \<open>v\<close> below 26 by the letter \<^verbatim>\<open>'A' + v\<close> and a symbol from 26 to 31 by the digit
  \<^verbatim>\<open>'2' + (v - 26)\<close>, which is the character at index \<open>v\<close> of \<^verbatim>\<open>A...Z2...7\<close>;
  \<open>AsciiToB32\<close> on that output gives the symbols back, and so it does on that output
  with its letters in lower case.
\<close>

theorem b32_ascii_round_trip:
  assumes "\<forall>v\<in>set buf. unat v \<le> 31"
  shows "\<exists>enc. B32ToAscii buf (length buf) = Some enc \<and>
           enc = map (\<lambda>v. if v < 26 then ascii CHR ''A'' + v else ascii CHR ''2'' + (v - 26)) buf \<and>
           enc = map (\<lambda>v. ascii (b32_alphabet ! unat v)) buf \<and>
           AsciiToB32 enc (length enc) = Some buf \<and>
           AsciiToB32 (map lowercase enc) (length enc) = Some buf"
proof -
  have each: "B32ToAscii_ch v = ascii (b32_alphabet ! unat v) \<and>
      B32ToAscii_ch v = (if v < 26 then ascii CHR ''A'' + v else ascii CHR ''2'' + (v - 26)) \<and>
      AsciiToB32_ch (B32ToAscii_ch v) = v \<and>
      AsciiToB32_ch (lowercase (B32ToAscii_ch v)) = v" if "v \<in> set buf" for v
  proof -
    have u: "unat v \<in> set [0..<32]"
      using assms that by fastforce
    have "unat v < 26 \<longleftrightarrow> v < 26"
      by (simp add: word_less_nat_alt)
    then show ?thesis
      using b32_table u unfolding list_all_iff by fastforce
  qed
  have r1: "AsciiToB32_ch (B32ToAscii_ch v) = v" if "v \<in> set buf" for v
    using each [OF that] by blast
  have r2: "AsciiToB32_ch (lowercase (B32ToAscii_ch v)) = v" if "v \<in> set buf" for v
    using each [OF that] by blast
  let ?enc = "map B32ToAscii_ch buf"
  have e: "B32ToAscii buf (length buf) = Some ?enc"
    unfolding B32ToAscii_def by (rule for_each_byte_all)
  have "B32ToAscii_ch v = (if v < 26 then ascii CHR ''A'' + v else ascii CHR ''2'' + (v - 26))"
    if "v \<in> set buf" for v
    using each [OF that] by blast
  then have a1: "?enc = map (\<lambda>v. if v < 26 then ascii CHR ''A'' + v else ascii CHR ''2'' + (v - 26)) buf"
    by simp
  have "B32ToAscii_ch v = ascii (b32_alphabet ! unat v)" if "v \<in> set buf" for v
    using each [OF that] by blast
  then have a2: "?enc = map (\<lambda>v. ascii (b32_alphabet ! unat v)) buf"
    by simp
  have "AsciiToB32 ?enc (length ?enc) = Some (map AsciiToB32_ch ?enc)"
    unfolding AsciiToB32_def by (rule for_each_byte_all)
  also have "map AsciiToB32_ch ?enc = buf"
    using r1 by (simp add: map_idI)
  finally have d: "AsciiToB32 ?enc (length ?enc) = Some buf" .
  have "AsciiToB32 (map lowercase ?enc) (length (map lowercase ?enc)) =
      Some (map AsciiToB32_ch (map lowercase ?enc))"
    unfolding AsciiToB32_def by (rule for_each_byte_all)
  also have "map AsciiToB32_ch (map lowercase ?enc) = buf"
    using r2 by (simp add: map_idI)
  finally have l: "AsciiToB32 (map lowercase ?enc) (length ?enc) = Some buf"
    by simp
  show ?thesis
    by (rule exI [of _ ?enc]) (intro conjI e a1 a2 d l)
qed


theorem b32_ascii_round_trip_witness:
  "B32ToAscii [0, 25, 26, 31] 4 = Some (map ascii ''AZ27'') \<and>
   AsciiToB32 (map ascii ''AZ27'') 4 = Some [0, 25, 26, 31] \<and>
   AsciiToB32 (map ascii ''az27'') 4 = Some [0, 25, 26, 31]"
proof -
  define buf :: "byte list" where "buf = [0, 25, 26, 31]"
  have fit: "\<forall>v\<in>set buf. unat v \<le> 31"
    unfolding buf_def by simp
  have len: "length buf = 4"
    unfolding buf_def by simp
  have a: "map (\<lambda>v. ascii (b32_alphabet ! unat v)) buf = map ascii ''AZ27''"
    unfolding buf_def by (simp add: b32_alphabet_def)
  have l: "map lowercase (map ascii ''AZ27'') = map ascii ''az27''"
    by (simp add: lowercase_def ascii_def)
  from b32_ascii_round_trip [OF fit] obtain enc where
    e: "B32ToAscii buf (length buf) = Some enc"
    and enc: "enc = map (\<lambda>v. ascii (b32_alphabet ! unat v)) buf"
    and d: "AsciiToB32 enc (length enc) = Some buf"
    and d': "AsciiToB32 (map lowercase enc) (length enc) = Some buf"
    by blast
  have enc': "enc = map ascii ''AZ27''"
    using enc a by simp
  have le: "length enc = 4"
    unfolding enc' by simp
  have "B32ToAscii buf 4 = Some (map ascii ''AZ27'') \<and>
      AsciiToB32 (map ascii ''AZ27'') 4 = Some buf \<and>
      AsciiToB32 (map ascii ''az27'') 4 = Some buf"
    using e [unfolded len] d [unfolded le] d' [unfolded le] unfolding enc' l by simp
  then show ?thesis
    unfolding buf_def .
qed

section \<open>B64StandardDecode\<close>

text \<open>
  What the table says about the bytes up to \<^verbatim>\<open>'z'\<close>: the only byte of class
  \<open>WHITESPACE\<close> is 9 (the horizontal tab), the only byte of class \<open>EQUALS\<close> is \<^verbatim>\<open>'='\<close>, and
  the class \<open>INVALID\<close> holds every other byte that is not in the standard alphabet, the
  space, the line feed and the carriage return among them.
\<close>

lemma d_classes:
  "list_all (\<lambda>n. (d ! n = WHITESPACE \<longleftrightarrow> n = 9) \<and> (d ! n = EQUALS \<longleftrightarrow> n = 61) \<and>
      (d ! n = INVALID \<longleftrightarrow> \<not> std_alphabet (of_nat n) \<and> n \<noteq> 9 \<and> n \<noteq> 61)) [0..<123]"
  by code_simp

lemma d_class:
  fixes v :: byte
  assumes "\<not> v > ascii CHR ''z''"
  shows "(d ! unat v = WHITESPACE \<longleftrightarrow> v = 9) \<and> (d ! unat v = EQUALS \<longleftrightarrow> v = ascii CHR ''='') \<and>
      (d ! unat v = INVALID \<longleftrightarrow> \<not> std_alphabet v \<and> v \<noteq> 9 \<and> v \<noteq> ascii CHR ''='')"
proof -
  have "unat v \<le> 122"
    using assms by (simp add: ascii_def word_less_nat_alt)
  then have u: "unat v \<in> set [0..<123]"
    by simp
  have e: "v = 9 \<longleftrightarrow> unat v = 9" "v = ascii CHR ''='' \<longleftrightarrow> unat v = 61"
    by (simp_all add: ascii_def word_eq_iff_unsigned [where ?'a = nat])
  show ?thesis
    using d_classes u unfolding list_all_iff e by fastforce
qed

lemma beyond_z:
  fixes v :: byte
  assumes "v > ascii CHR ''z''"
  shows "\<not> std_alphabet v \<and> v \<noteq> 9 \<and> v \<noteq> ascii CHR ''=''"
  using assms by (auto simp: std_alphabet_def ascii_def word_less_nat_alt word_le_nat_alt)

lemma B64StandardDecode_loop_accepts:
  "fst (B64StandardDecode_loop inp buf out) \<longleftrightarrow>
     (\<forall>v\<in>set (takeWhile (\<lambda>v. v \<noteq> ascii CHR ''='') inp). std_alphabet v \<or> v = 9)"
proof (induction inp arbitrary: buf out)
  case Nil
  then show ?case by simp
next
  case (Cons v rest)
  show ?case
  proof (cases "v > ascii CHR ''z''")
    case True
    then show ?thesis
      using beyond_z [OF True] by simp
  next
    case False
    note cls = d_class [OF False]
    consider (ws) "d ! unat v = WHITESPACE" | (inv) "d ! unat v = INVALID"
      | (eq) "d ! unat v = EQUALS" | (sym) "d ! unat v \<noteq> WHITESPACE" "d ! unat v \<noteq> INVALID" "d ! unat v \<noteq> EQUALS"
      by blast
    then show ?thesis
    proof cases
      case ws
      then show ?thesis
        using False cls Cons.IH by (simp add: ascii_def)
    next
      case inv
      then show ?thesis
        using False cls by (simp add: WHITESPACE_def INVALID_def)
    next
      case eq
      then show ?thesis
        using False cls by (simp add: WHITESPACE_def INVALID_def EQUALS_def)
    next
      case sym
      then have "std_alphabet v" and "v \<noteq> ascii CHR ''=''"
        using cls by auto
      then show ?thesis
        using False sym Cons.IH by (simp add: Let_def)
    qed
  qed
qed

text \<open>
  So the decoder returns true exactly when every byte before the first \<^verbatim>\<open>'='\<close> is in
  the standard alphabet or is a tab.
\<close>

lemma B64StandardDecode_accepts:
  "fst (B64StandardDecode inp) \<longleftrightarrow>
     (\<forall>v\<in>set (takeWhile (\<lambda>v. v \<noteq> ascii CHR ''='') inp). std_alphabet v \<or> v = 9)"
proof -
  have "fst (B64StandardDecode inp) = fst (B64StandardDecode_loop inp 1 [])"
    by (simp add: B64StandardDecode_def split: prod.splits bool.splits)
  then show ?thesis
    by (simp only: B64StandardDecode_loop_accepts)
qed

text \<open>
  Claim C3. The decoder is to skip whitespace, to stop at the first \<^verbatim>\<open>'='\<close> and to return
  false only for a byte, before any \<^verbatim>\<open>'='\<close>, that is neither in the alphabet, nor
  whitespace, nor \<^verbatim>\<open>'='\<close>. The code skips the tab and stops at \<^verbatim>\<open>'='\<close>, but it returns
  false at a space, a line feed or a carriage return: the input \<^verbatim>\<open>aGk=\<close> decodes to
  \<^verbatim>\<open>hi\<close>, and the same input with a space inside is refused.
\<close>

theorem B64StandardDecode_whitespace:
  "B64StandardDecode [ascii CHR '' ''] = (False, []) \<and>
   B64StandardDecode [10] = (False, []) \<and>
   B64StandardDecode [13] = (False, []) \<and>
   B64StandardDecode [9] = (True, []) \<and>
   B64StandardDecode (map ascii ''aGk='') = (True, map ascii ''hi'') \<and>
   B64StandardDecode (map ascii ''aG k='') = (False, [])"
  by code_simp

section \<open>Properties of the null name codec\<close>

lemma memcpy_whole:
  "length src \<le> length dst \<Longrightarrow> memcpy dst src (length src) = Some (src @ drop (length src) dst)"
  by (simp add: memcpy_def)

lemma encodeName_whole:
  assumes "length name \<le> length enc"
  shows "encodeName name (length name) iv enc = Some (length name, iv, name @ drop (length name) enc)"
  using assms by (simp add: encodeName_def memcpy_whole)

lemma decodeName_prefix:
  assumes "n \<le> length enc" and "n \<le> length plain"
  shows "decodeName enc n iv plain = Some (n, iv, take n enc @ drop n plain)"
  using assms by (simp add: decodeName_def memcpy_def)

text \<open>
  Claim C6. The null codec is the identity. For a name of \<open>n\<close> bytes and output arrays of
  at least \<open>n\<close> bytes, \<open>encodeName\<close> returns \<open>n\<close> and leaves the name's bytes, unchanged,
  in the first \<open>n\<close> places of its output (the rest of the array is untouched);
  \<open>decodeName\<close> on that output with length \<open>n\<close> returns \<open>n\<close> and leaves the original
  bytes in the first \<open>n\<close> places of its own output; and both length bounds return their
  argument.
\<close>

theorem null_codec_identity:
  assumes "length name = n" and "n \<le> length enc" and "n \<le> length plain"
  shows "\<exists>out back.
           encodeName name n iv enc = Some (n, iv, out) \<and>
           take n out = name \<and> drop n out = drop n enc \<and>
           decodeName out n iv' plain = Some (n, iv', back) \<and>
           take n back = name \<and> drop n back = drop n plain \<and>
           maxEncodedNameLen (int n) = int n \<and> maxDecodedNameLen (int n) = int n"
proof -
  let ?out = "name @ drop n enc"
  have e: "encodeName name n iv enc = Some (n, iv, ?out)"
    using assms encodeName_whole [of name enc iv] by simp
  have len: "n \<le> length ?out"
    using assms by simp
  have d: "decodeName ?out n iv' plain = Some (n, iv', take n ?out @ drop n plain)"
    using len assms(3) by (rule decodeName_prefix)
  have t: "take n ?out = name"
    using assms by simp
  show ?thesis
    using e d t assms by (simp add: maxEncodedNameLen_def maxDecodedNameLen_def)
qed

theorem null_codec_identity_witness:
  "\<exists>out back.
     encodeName ''a.txt'' 5 7 ''XXXXXXX'' = Some (5, 7, out) \<and>
     take 5 out = ''a.txt'' \<and> drop 5 out = ''XX'' \<and>
     decodeName out 5 9 ''YYYYY'' = Some (5, 9, back) \<and>
     take 5 back = ''a.txt'' \<and> drop 5 back = [] \<and>
     maxEncodedNameLen 5 = 5 \<and> maxDecodedNameLen 5 = 5"
  using null_codec_identity [of "''a.txt''" 5 "''XXXXXXX''" "''YYYYY''" 7 9] by simp

text \<open>
  Claim C7. The null codec never writes the IV slot, and what it returns and writes does
  not depend on the slot's value: whenever a call returns, the slot holds the value it
  held before, and the same call with any other IV value returns the same length and
  the same output bytes (and leaves that other value in the slot); and whether a call
  returns at all does not depend on the IV value either.
\<close>

theorem null_codec_iv_frame:
  "(encodeName name n iv enc = Some (r, iv2, out) \<longrightarrow>
      iv2 = iv \<and> encodeName name n iv' enc = Some (r, iv', out)) \<and>
   (decodeName enc n iv plain = Some (r, iv2, out) \<longrightarrow>
      iv2 = iv \<and> decodeName enc n iv' plain = Some (r, iv', out)) \<and>
   (encodeName name n iv enc = None \<longleftrightarrow> encodeName name n iv' enc = None) \<and>
   (decodeName enc n iv plain = None \<longleftrightarrow> decodeName enc n iv' plain = None)"
  by (auto simp: encodeName_def decodeName_def split: option.splits)

theorem null_codec_iv_frame_witness:
  "encodeName ''ab'' 2 5 ''XYZ'' = Some (2, 5, ''abZ'') \<and>
   encodeName ''ab'' 2 6 ''XYZ'' = Some (2, 6, ''abZ'') \<and>
   decodeName ''abZ'' 2 5 ''PQ'' = Some (2, 5, ''ab'') \<and>
   decodeName ''abZ'' 2 6 ''PQ'' = Some (2, 6, ''ab'')"
proof -
  have e: "encodeName ''ab'' 2 5 ''XYZ'' = Some (2, 5, ''abZ'')"
    by (simp add: encodeName_def memcpy_def)
  have d: "decodeName ''abZ'' 2 5 ''PQ'' = Some (2, 5, ''ab'')"
    by (simp add: decodeName_def memcpy_def)
  from e null_codec_iv_frame [where name = "''ab''" and n = 2 and iv = 5 and enc = "''XYZ''"
      and r = 2 and ?iv2.0 = 5 and out = "''abZ''" and iv' = 6]
  have e': "encodeName ''ab'' 2 6 ''XYZ'' = Some (2, 6, ''abZ'')"
    by blast
  from d null_codec_iv_frame [where enc = "''abZ''" and n = 2 and iv = 5 and plain = "''PQ''"
      and r = 2 and ?iv2.0 = 5 and out = "''ab''" and iv' = 6]
  have d': "decodeName ''abZ'' 2 6 ''PQ'' = Some (2, 6, ''ab'')"
    by blast
  show ?thesis using e e' d d' by simp
qed


end
